theory Spec2Isabelle
  imports Main "HOL-Library.AList"
begin

section \<open>The index builder of scripts/openhab\_crawler.py\<close>

text \<open>
  This theory embeds the function \<open>build_items_index\<close> of the crawler: the tag
  classification, the flat index keyed by item name, and the assembly of the
  Location / Equipment / Point forest from the group-membership lists.

  Python dictionaries keep insertion order and an assignment to a key that is already
  present keeps the key's position. A dictionary is therefore an association list whose
  assignment is \<open>AList.update\<close>: replace in place, or append at the end.
\<close>

subsection \<open>Dictionaries and errors\<close>

type_synonym 'v dict = "(string \<times> 'v) list"

definition dict_set :: "string \<Rightarrow> 'v \<Rightarrow> 'v dict \<Rightarrow> 'v dict" where
  "dict_set k v d = AList.update k v d"

definition dict_keys :: "'v dict \<Rightarrow> string list" where
  "dict_keys d = map fst d"

definition dict_has :: "'v dict \<Rightarrow> string \<Rightarrow> bool" where
  "dict_has d k = (k \<in> set (dict_keys d))"

text \<open>
  The exceptions that the function can raise. A subscript \<open>d[k]\<close> on a missing key
  raises \<open>KeyError\<close>. A call that would nest deeper than the interpreter's recursion
  limit raises \<open>RecursionError\<close>.
\<close>

datatype error = KeyError | RecursionError

definition dict_get :: "'v dict \<Rightarrow> string \<Rightarrow> error + 'v" where
  "dict_get d k = (case map_of d k of None \<Rightarrow> Inl KeyError | Some v \<Rightarrow> Inr v)"

text \<open>Truthiness of a string, as \<open>if name:\<close> and \<open>if parent_eq:\<close> test it.\<close>

definition truthy :: "string \<Rightarrow> bool" where
  "truthy s = (s \<noteq> [])"

text \<open>\<open>t.endswith(s)\<close>: the last \<open>len(s)\<close> characters of \<open>t\<close> are \<open>s\<close>.\<close>

definition endswith :: "string \<Rightarrow> string \<Rightarrow> bool" where
  "endswith t s = (length s \<le> length t \<and> drop (length t - length s) t = s)"

text \<open>A loop whose body may raise: the first error ends the loop.\<close>

fun foldE :: "('a \<Rightarrow> 's \<Rightarrow> error + 's) \<Rightarrow> 'a list \<Rightarrow> 's \<Rightarrow> error + 's" where
  "foldE f [] s = Inr s"
| "foldE f (x # xs) s = (case f x s of Inl e \<Rightarrow> Inl e | Inr s' \<Rightarrow> foldE f xs s')"

subsection \<open>Items and their classification\<close>

text \<open>
  A raw item record of the item payload. A field is \<open>None\<close> when the key is absent
  (or null): \<open>it.get(key)\<close> returns \<open>None\<close> then. The metadata is an opaque mapping.
\<close>

record raw_item =
  name :: "string option"
  label :: "string option"
  itype :: "string option"
  category :: "string option"
  tags :: "string list option"
  groupNames :: "string list option"
  metadata :: "(string \<times> string) list option"

record semantic =
  isLocation :: bool
  isEquipment :: bool
  isPoint :: bool
  propertyTags :: "string list"

record index_entry =
  e_name :: string
  e_label :: "string option"
  e_type :: "string option"
  e_category :: "string option"
  e_tags :: "string list"
  e_groupNames :: "string list"
  e_metadata :: "(string \<times> string) list"
  e_semantic :: semantic
  rest_url :: string

record aux_entry =
  a_name :: string
  a_tags :: "string list"
  a_groupNames :: "string list"

text \<open>\<open>it.get("tags") or []\<close>, \<open>it.get("groupNames") or []\<close>, \<open>it.get("metadata") or {}\<close>.\<close>

definition item_tags :: "raw_item \<Rightarrow> string list" where
  "item_tags it = (case tags it of None \<Rightarrow> [] | Some ts \<Rightarrow> ts)"

definition item_group_names :: "raw_item \<Rightarrow> string list" where
  "item_group_names it = (case groupNames it of None \<Rightarrow> [] | Some gs \<Rightarrow> gs)"

definition item_metadata :: "raw_item \<Rightarrow> (string \<times> string) list" where
  "item_metadata it = (case metadata it of None \<Rightarrow> [] | Some m \<Rightarrow> m)"

text \<open>The classification of lines 127 to 132.\<close>

definition is_location :: "string list \<Rightarrow> bool" where
  "is_location ts = list_ex (\<lambda>t. endswith t ''Location'' \<or> t = ''Location'') ts"

definition is_equipment :: "string list \<Rightarrow> bool" where
  "is_equipment ts = list_ex (\<lambda>t. endswith t ''Equipment'' \<or> t = ''Equipment'') ts"

definition is_point :: "string list \<Rightarrow> bool" where
  "is_point ts = list_ex (\<lambda>t. endswith t ''Point'' \<or> t = ''Point'') ts"

definition property_tags :: "string list \<Rightarrow> string list" where
  "property_tags ts = filter (\<lambda>t. t \<notin> set [''Location'', ''Equipment'', ''Point'']) ts"

definition classify :: "string list \<Rightarrow> semantic" where
  "classify ts =
     \<lparr>isLocation = is_location ts, isEquipment = is_equipment ts,
      isPoint = is_point ts, propertyTags = property_tags ts\<rparr>"

subsection \<open>The flat index\<close>

record flat_index =
  items_by_name :: "index_entry dict"
  locations :: "aux_entry dict"
  equipment :: "aux_entry dict"

definition make_entry :: "string \<Rightarrow> raw_item \<Rightarrow> index_entry" where
  "make_entry nm it =
     \<lparr>e_name = nm, e_label = label it, e_type = itype it, e_category = category it,
      e_tags = item_tags it, e_groupNames = item_group_names it,
      e_metadata = item_metadata it, e_semantic = classify (item_tags it),
      rest_url = ''/rest/items/'' @ nm\<rparr>"

definition make_aux :: "string \<Rightarrow> raw_item \<Rightarrow> aux_entry" where
  "make_aux nm it = \<lparr>a_name = nm, a_tags = item_tags it, a_groupNames = item_group_names it\<rparr>"

text \<open>\<open>not name\<close>: the name is absent or the empty string.\<close>

definition has_name :: "raw_item \<Rightarrow> bool" where
  "has_name it = (case name it of None \<Rightarrow> False | Some nm \<Rightarrow> truthy nm)"

text \<open>One iteration of the loop of lines 117 to 155.\<close>

definition index_item :: "raw_item \<Rightarrow> flat_index \<Rightarrow> flat_index" where
  "index_item it st =
     (case name it of
        None \<Rightarrow> st
      | Some nm \<Rightarrow>
          if \<not> truthy nm then st
          else
            \<lparr>items_by_name = dict_set nm (make_entry nm it) (items_by_name st),
             locations =
               (if is_location (item_tags it) then dict_set nm (make_aux nm it) (locations st)
                else locations st),
             equipment =
               (if is_equipment (item_tags it) then dict_set nm (make_aux nm it) (equipment st)
                else equipment st)\<rparr>)"

definition empty_index :: flat_index where
  "empty_index = \<lparr>items_by_name = [], locations = [], equipment = []\<rparr>"

definition build_flat_index :: "raw_item list \<Rightarrow> flat_index" where
  "build_flat_index items = fold index_item items empty_index"

subsection \<open>The forest: node objects and references\<close>

text \<open>
  The forest is built from mutable node objects that are shared by reference: a location
  node is at once a value of \<open>location_nodes\<close> and an element of its parent's
  \<open>children_locations\<close> (or of the root list), and an equipment node is at once an
  element of its location's \<open>equipment\<close> list and a value of \<open>equipment_nodes\<close>.
  The model keeps the objects in a store and the lists hold references.

  One location node is created per key of \<open>locations\<close> and one equipment node per
  attached key of \<open>equipment\<close>, so the key is the object's address: the dictionary
  \<open>location_nodes\<close> is the store of the location nodes, \<open>equipment_objs\<close> the
  store of the equipment nodes. A point reference \<open>{"item": name}\<close> is the name.
\<close>

record loc_node =
  item :: string
  children_locations :: "string list"
  node_equipment :: "string list"
  node_points :: "string list"

record eq_node =
  eq_item :: string
  eq_points :: "string list"

record tree_state =
  semantic_tree :: "string list"
  location_nodes :: "loc_node dict"
  equipment_objs :: "eq_node dict"
  equipment_nodes :: "string dict"

text \<open>Lines 162 to 168: one empty node per location.\<close>

definition new_location_node :: "string \<Rightarrow> loc_node" where
  "new_location_node loc_name =
     \<lparr>item = loc_name, children_locations = [], node_equipment = [], node_points = []\<rparr>"

definition create_location_nodes :: "aux_entry dict \<Rightarrow> loc_node dict" where
  "create_location_nodes locs =
     fold (\<lambda>(loc_name, loc) nodes. dict_set loc_name (new_location_node loc_name) nodes) locs []"

text \<open>\<open>[g for g in groupNames if g in location_nodes]\<close>\<close>

definition parent_locations :: "loc_node dict \<Rightarrow> string list \<Rightarrow> string list" where
  "parent_locations nodes gs = filter (dict_has nodes) gs"

text \<open>Lines 171 to 178: a location becomes a root or the child of its first candidate.\<close>

definition assign_location :: "string \<times> aux_entry \<Rightarrow> tree_state \<Rightarrow> error + tree_state" where
  "assign_location = (\<lambda>(loc_name, loc) st.
     case parent_locations (location_nodes st) (a_groupNames loc) of
       [] \<Rightarrow>
         (case dict_get (location_nodes st) loc_name of
            Inl e \<Rightarrow> Inl e
          | Inr _ \<Rightarrow> Inr (st\<lparr>semantic_tree := semantic_tree st @ [loc_name]\<rparr>))
     | parent # _ \<Rightarrow>
         (case dict_get (location_nodes st) parent of
            Inl e \<Rightarrow> Inl e
          | Inr nd \<Rightarrow>
              (case dict_get (location_nodes st) loc_name of
                 Inl e \<Rightarrow> Inl e
               | Inr _ \<Rightarrow>
                   Inr (st\<lparr>location_nodes :=
                     dict_set parent
                       (nd\<lparr>children_locations := children_locations nd @ [loc_name]\<rparr>)
                       (location_nodes st)\<rparr>))))"

text \<open>Lines 181 to 187: an equipment is attached to its first candidate, or skipped.\<close>

definition attach_equipment :: "string \<times> aux_entry \<Rightarrow> tree_state \<Rightarrow> error + tree_state" where
  "attach_equipment = (\<lambda>(eq_name, eq) st.
     case parent_locations (location_nodes st) (a_groupNames eq) of
       [] \<Rightarrow> Inr st
     | parent # _ \<Rightarrow>
         (case dict_get (location_nodes st) parent of
            Inl e \<Rightarrow> Inl e
          | Inr nd \<Rightarrow>
              Inr (st\<lparr>location_nodes :=
                     dict_set parent
                       (nd\<lparr>node_equipment := node_equipment nd @ [eq_name]\<rparr>)
                       (location_nodes st),
                   equipment_objs :=
                     dict_set eq_name \<lparr>eq_item = eq_name, eq_points = []\<rparr> (equipment_objs st)\<rparr>)))"

text \<open>Lines 192 and 193: the lookup entry of one equipment node of a location.\<close>

definition register_equipment :: "eq_node dict \<Rightarrow> string \<Rightarrow> string dict \<Rightarrow> error + string dict" where
  "register_equipment objs eq_ref eqn =
     (case dict_get objs eq_ref of
        Inl e \<Rightarrow> Inl e
      | Inr eq \<Rightarrow> Inr (dict_set (eq_item eq) eq_ref eqn))"

text \<open>
  Lines 191 to 198: the recursive traversal. Every nested call takes one more frame of the
  interpreter, and the code has no guard on the depth. The first argument \<open>limit\<close> is the
  number of nested calls of \<open>collect_equipment_nodes\<close> that the recursion limit of the
  interpreter (1000 by default, less the frames in use when the traversal starts) still
  leaves room for: a call made when no room is left raises \<open>RecursionError\<close>. The
  traversal reads the two stores and writes \<open>equipment_nodes\<close> only.
\<close>

primrec collect_equipment_nodes ::
  "nat \<Rightarrow> loc_node dict \<Rightarrow> eq_node dict \<Rightarrow> string \<Rightarrow> string dict \<Rightarrow> error + string dict" where
  "collect_equipment_nodes 0 nodes objs = (\<lambda>loc_ref eqn. Inl RecursionError)"
| "collect_equipment_nodes (Suc limit) nodes objs = (\<lambda>loc_ref eqn.
     case dict_get nodes loc_ref of
       Inl e \<Rightarrow> Inl e
     | Inr loc_node \<Rightarrow>
         (case foldE (register_equipment objs) (node_equipment loc_node) eqn of
            Inl e \<Rightarrow> Inl e
          | Inr eqn' \<Rightarrow>
              foldE (collect_equipment_nodes limit nodes objs) (children_locations loc_node) eqn'))"

text \<open>Lines 197 and 198: the traversal from every root.\<close>

definition collect_all :: "nat \<Rightarrow> tree_state \<Rightarrow> error + tree_state" where
  "collect_all limit st =
     (case foldE (collect_equipment_nodes limit (location_nodes st) (equipment_objs st))
             (semantic_tree st) (equipment_nodes st) of
        Inl e \<Rightarrow> Inl e
      | Inr eqn \<Rightarrow> Inr (st\<lparr>equipment_nodes := eqn\<rparr>))"

text \<open>\<open>next((g for g in group_names if g in d), None)\<close>\<close>

definition first_in :: "'v dict \<Rightarrow> string list \<Rightarrow> string option" where
  "first_in d gs = List.find (dict_has d) gs"

text \<open>Lines 214 to 217: the fallback to a location in the group names.\<close>

definition point_to_location :: "string \<Rightarrow> string list \<Rightarrow> tree_state \<Rightarrow> error + tree_state" where
  "point_to_location nm gs st =
     (case first_in (location_nodes st) gs of
        None \<Rightarrow> Inr st
      | Some parent_loc \<Rightarrow>
          if truthy parent_loc then
            (case dict_get (location_nodes st) parent_loc of
               Inl e \<Rightarrow> Inl e
             | Inr nd \<Rightarrow>
                 Inr (st\<lparr>location_nodes :=
                   dict_set parent_loc (nd\<lparr>node_points := node_points nd @ [nm]\<rparr>)
                     (location_nodes st)\<rparr>))
          else Inr st)"

text \<open>Lines 208 to 211: the equipment found through the lookup gets the point.\<close>

definition point_to_equipment :: "string \<Rightarrow> string \<Rightarrow> tree_state \<Rightarrow> error + tree_state" where
  "point_to_equipment nm parent_eq st =
     (case dict_get (equipment_nodes st) parent_eq of
        Inl e \<Rightarrow> Inl e
      | Inr eq_ref \<Rightarrow>
          (case dict_get (equipment_objs st) eq_ref of
             Inl e \<Rightarrow> Inl e
           | Inr eq \<Rightarrow>
               Inr (st\<lparr>equipment_objs :=
                 dict_set eq_ref (eq\<lparr>eq_points := eq_points eq @ [nm]\<rparr>) (equipment_objs st)\<rparr>)))"

text \<open>Lines 201 to 219: one iteration of the loop over the flat index.\<close>

definition assign_point :: "string \<times> index_entry \<Rightarrow> tree_state \<Rightarrow> error + tree_state" where
  "assign_point = (\<lambda>(nm, it) st.
     if \<not> isPoint (e_semantic it) then Inr st
     else
       (case first_in (equipment_nodes st) (e_groupNames it) of
          None \<Rightarrow> point_to_location nm (e_groupNames it) st
        | Some parent_eq \<Rightarrow>
            if truthy parent_eq then point_to_equipment nm parent_eq st
            else point_to_location nm (e_groupNames it) st))"

subsection \<open>The whole function\<close>

definition initial_tree :: "flat_index \<Rightarrow> tree_state" where
  "initial_tree fl =
     \<lparr>semantic_tree = [], location_nodes = create_location_nodes (locations fl),
      equipment_objs = [], equipment_nodes = []\<rparr>"

text \<open>Lines 158 to 187: the nodes, the location hierarchy and the equipment.\<close>

definition assemble_locations :: "flat_index \<Rightarrow> error + tree_state" where
  "assemble_locations fl =
     (case foldE assign_location (locations fl) (initial_tree fl) of
        Inl e \<Rightarrow> Inl e
      | Inr st \<Rightarrow> foldE attach_equipment (equipment fl) st)"

text \<open>
  The returned dictionary: the flat index, and the forest as its root list together with
  the store that the references of the root list lead into.
\<close>

record index_result =
  res_items_by_name :: "index_entry dict"
  res_tree :: tree_state

text \<open>
  The function, for a recursion limit that leaves room for \<open>limit\<close> nested calls of the
  traversal. It returns the result or the exception it raises.
\<close>

definition build_items_index :: "nat \<Rightarrow> raw_item list \<Rightarrow> error + index_result" where
  "build_items_index limit items =
     (let fl = build_flat_index items in
      case assemble_locations fl of
        Inl e \<Rightarrow> Inl e
      | Inr st \<Rightarrow>
          (case collect_all limit st of
             Inl e \<Rightarrow> Inl e
           | Inr st' \<Rightarrow>
               (case foldE assign_point (items_by_name fl) st' of
                  Inl e \<Rightarrow> Inl e
                | Inr st'' \<Rightarrow>
                    Inr \<lparr>res_items_by_name = items_by_name fl, res_tree = st''\<rparr>)))"

section \<open>Notions used to state the properties\<close>

subsection \<open>Placement by first match\<close>

text \<open>
  The first element of a group list that is one of the names \<open>K\<close>, if there is one:
  the first parent candidate in the original order of the list.
\<close>

definition first_candidate :: "string list \<Rightarrow> string list \<Rightarrow> string option" where
  "first_candidate K gs = (case filter (\<lambda>g. g \<in> set K) gs of [] \<Rightarrow> None | c # _ \<Rightarrow> Some c)"

text \<open>
  The entries of an auxiliary dictionary whose first candidate is \<open>p\<close>, in the
  iteration order of the dictionary; \<open>p = None\<close> selects the entries with no candidate.
\<close>

definition placed_under :: "string list \<Rightarrow> string option \<Rightarrow> aux_entry dict \<Rightarrow> string list" where
  "placed_under K p xs = map fst (filter (\<lambda>(n, a). first_candidate K (a_groupNames a) = p) xs)"

text \<open>The entries that have a candidate at all.\<close>

definition attached :: "string list \<Rightarrow> aux_entry dict \<Rightarrow> string list" where
  "attached K xs = map fst (filter (\<lambda>(n, a). first_candidate K (a_groupNames a) \<noteq> None) xs)"

definition new_equipment_node :: "string \<Rightarrow> eq_node" where
  "new_equipment_node e = \<lparr>eq_item = e, eq_points = []\<rparr>"

text \<open>The parent that the group list of a location selects.\<close>

definition parent_of :: "flat_index \<Rightarrow> string \<Rightarrow> string option" where
  "parent_of fl n =
     (case map_of (locations fl) n of
        None \<Rightarrow> None
      | Some a \<Rightarrow> first_candidate (dict_keys (locations fl)) (a_groupNames a))"

subsection \<open>Ancestor chains\<close>

text \<open>
  \<open>chain par (n # rest)\<close>: the list runs from \<open>n\<close> through its parent, grandparent
  and so on, and ends in a node without parent.
\<close>

fun chain :: "(string \<Rightarrow> string option) \<Rightarrow> string list \<Rightarrow> bool" where
  "chain par [] = False"
| "chain par [r] = (par r = None)"
| "chain par (n # p # rest) = (par n = Some p \<and> chain par (p # rest))"

text \<open>
  A store agrees with a parent function when every child listed in a node has that node
  as its parent, and every reference in it points to an object of the store.
\<close>

definition forest_store :: "(string \<Rightarrow> string option) \<Rightarrow> loc_node dict \<Rightarrow> eq_node dict \<Rightarrow> bool" where
  "forest_store par nodes objs \<longleftrightarrow>
     (\<forall>p nd. map_of nodes p = Some nd \<longrightarrow>
        (\<forall>c \<in> set (children_locations nd). par c = Some p \<and> c \<in> set (dict_keys nodes)) \<and>
        (\<forall>e \<in> set (node_equipment nd). e \<in> set (dict_keys objs)))"

subsection \<open>Invariants of the flat index and of the equipment lookup\<close>

definition flat_ok :: "flat_index \<Rightarrow> bool" where
  "flat_ok fl \<longleftrightarrow>
     distinct (dict_keys (items_by_name fl)) \<and> distinct (dict_keys (locations fl)) \<and>
     distinct (dict_keys (equipment fl)) \<and>
     [] \<notin> set (dict_keys (items_by_name fl)) \<and>
     set (dict_keys (locations fl)) \<subseteq> set (dict_keys (items_by_name fl)) \<and>
     set (dict_keys (equipment fl)) \<subseteq> set (dict_keys (items_by_name fl))"

definition objs_ok :: "eq_node dict \<Rightarrow> bool" where
  "objs_ok objs \<longleftrightarrow> (\<forall>e ob. map_of objs e = Some ob \<longrightarrow> eq_item ob = e)"

text \<open>The lookup maps a name to the equipment node of that name, which exists.\<close>

definition eqn_ok :: "eq_node dict \<Rightarrow> string dict \<Rightarrow> bool" where
  "eqn_ok objs eqn \<longleftrightarrow> (\<forall>k v. map_of eqn k = Some v \<longrightarrow> v = k \<and> k \<in> set (dict_keys objs))"

subsection \<open>The owner of a point\<close>

datatype owner = EqOwner string | LocOwner string | NoOwner

text \<open>
  The owner that a group list selects: the first name that is a key of the equipment
  lookup \<open>EK\<close>; failing that, the first name that is a location node \<open>K\<close>; failing
  that, none.
\<close>

definition point_owner :: "string list \<Rightarrow> string list \<Rightarrow> string list \<Rightarrow> owner" where
  "point_owner EK K gs =
     (case List.find (\<lambda>g. g \<in> set EK) gs of
        Some e \<Rightarrow> EqOwner e
      | None \<Rightarrow> (case List.find (\<lambda>g. g \<in> set K) gs of Some l \<Rightarrow> LocOwner l | None \<Rightarrow> NoOwner))"

text \<open>The points of the flat index that select the owner \<open>ow\<close>, in index order.\<close>

definition points_for :: "string list \<Rightarrow> string list \<Rightarrow> owner \<Rightarrow> index_entry dict \<Rightarrow> string list" where
  "points_for EK K ow xs =
     map fst (filter (\<lambda>(nm, it). isPoint (e_semantic it) \<and> point_owner EK K (e_groupNames it) = ow) xs)"

subsection \<open>The nodes in closed form\<close>

definition assembled_node :: "flat_index \<Rightarrow> string \<Rightarrow> loc_node" where
  "assembled_node fl p =
     \<lparr>item = p,
      children_locations = placed_under (dict_keys (locations fl)) (Some p) (locations fl),
      node_equipment = placed_under (dict_keys (locations fl)) (Some p) (equipment fl),
      node_points = []\<rparr>"

definition final_node :: "flat_index \<Rightarrow> string list \<Rightarrow> string \<Rightarrow> loc_node" where
  "final_node fl EK p =
     \<lparr>item = p,
      children_locations = placed_under (dict_keys (locations fl)) (Some p) (locations fl),
      node_equipment = placed_under (dict_keys (locations fl)) (Some p) (equipment fl),
      node_points = points_for EK (dict_keys (locations fl)) (LocOwner p) (items_by_name fl)\<rparr>"

definition final_equipment :: "flat_index \<Rightarrow> string list \<Rightarrow> string \<Rightarrow> eq_node" where
  "final_equipment fl EK e =
     \<lparr>eq_item = e,
      eq_points = points_for EK (dict_keys (locations fl)) (EqOwner e) (items_by_name fl)\<rparr>"

definition closed_form :: "flat_index \<Rightarrow> index_result \<Rightarrow> bool" where
  "closed_form fl r \<longleftrightarrow>
     res_items_by_name r = items_by_name fl \<and>
     dict_keys (location_nodes (res_tree r)) = dict_keys (locations fl) \<and>
     semantic_tree (res_tree r) = placed_under (dict_keys (locations fl)) None (locations fl) \<and>
     (\<forall>p. map_of (location_nodes (res_tree r)) p =
        (if p \<in> set (dict_keys (locations fl))
         then Some (final_node fl (dict_keys (equipment_nodes (res_tree r))) p) else None)) \<and>
     (\<forall>e. map_of (equipment_objs (res_tree r)) e =
        (if e \<in> set (attached (dict_keys (locations fl)) (equipment fl))
         then Some (final_equipment fl (dict_keys (equipment_nodes (res_tree r))) e) else None)) \<and>
     set (dict_keys (equipment_objs (res_tree r))) = set (attached (dict_keys (locations fl)) (equipment fl)) \<and>
     distinct (dict_keys (equipment_objs (res_tree r))) \<and>
     eqn_ok (equipment_objs (res_tree r)) (equipment_nodes (res_tree r))"

subsection \<open>Reachability in the store\<close>




section \<open>Example inputs\<close>

definition untagged_item :: raw_item where
  "untagged_item = \<lparr>name = Some ''Hall'', label = None, itype = None, category = None,
     tags = None, groupNames = None, metadata = None\<rparr>"

text \<open>Items with a name, tags and group names, and items without a usable name.\<close>

definition mk_item :: "string \<Rightarrow> string list \<Rightarrow> string list \<Rightarrow> raw_item" where
  "mk_item n ts gs = \<lparr>name = Some n, label = None, itype = None, category = None,
     tags = Some ts, groupNames = Some gs, metadata = None\<rparr>"

definition nameless_item :: "string option \<Rightarrow> string list \<Rightarrow> raw_item" where
  "nameless_item n ts = \<lparr>name = n, label = Some ''ghost'', itype = None, category = None,
     tags = Some ts, groupNames = None, metadata = None\<rparr>"


text \<open>
  Two candidate parents in one group list, an equipment with no location, and points
  that name a location before an equipment, a location only, and neither.
\<close>

definition tie_break_items :: "raw_item list" where
  "tie_break_items =
     [mk_item ''LocRoot'' [''Location''] [],
      mk_item ''GroupA'' [''IndoorLocation''] [],
      mk_item ''Room'' [''Location''] [''GroupA'', ''LocRoot''],
      mk_item ''Lamp'' [''Equipment''] [''Misc'', ''Room'', ''LocRoot''],
      mk_item ''Box'' [''Equipment''] [''Misc''],
      mk_item ''LampSwitch'' [''Point''] [''Room'', ''Lamp''],
      mk_item ''RoomTemp'' [''Point''] [''Room''],
      mk_item ''Stray'' [''Point''] [''Misc'']]"

definition box_entry :: aux_entry where
  "box_entry = \<lparr>a_name = ''Box'', a_tags = [''Equipment''], a_groupNames = [''Misc'']\<rparr>"

text \<open>A name that occurs twice, and records without a name.\<close>

definition duplicate_items :: "raw_item list" where
  "duplicate_items = [mk_item ''A'' [''Location''] [], mk_item ''B'' [] [], mk_item ''A'' [''Light''] [''B'']]"

definition ghost_items :: "raw_item list" where
  "ghost_items =
     [nameless_item None [''Location''], mk_item ''Kitchen'' [''Location''] [],
      nameless_item (Some []) [''Equipment'', ''Point'']]"

definition shadow_items :: "raw_item list" where
  "shadow_items = [mk_item ''A'' [''Location''] [], mk_item ''A'' [] []]"



text \<open>
  Locations nested in one chain: location \<open>i\<close> is a member of location \<open>i - 1\<close>, and
  location \<open>0\<close> is a root. The names are distinct: \<open>i + 1\<close> letters.
\<close>

definition loc_name :: "nat \<Rightarrow> string" where
  "loc_name i = replicate (Suc i) CHR ''L''"



section \<open>Auxiliary lemmas\<close>

lemma endswith_iff: "endswith t s \<longleftrightarrow> (\<exists>p. t = p @ s)"
proof
  assume "endswith t s"
  then have "t = take (length t - length s) t @ s"
    by (metis append_take_drop_id endswith_def)
  then show "\<exists>p. t = p @ s" ..
next
  assume "\<exists>p. t = p @ s"
  then show "endswith t s" by (auto simp: endswith_def)
qed

lemma index_item_skip: "\<not> has_name it \<Longrightarrow> index_item it st = st"
  by (auto simp: has_name_def index_item_def split: option.splits)

lemma index_item_named:
  "name it = Some nm \<Longrightarrow> nm \<noteq> [] \<Longrightarrow>
   index_item it st =
     \<lparr>items_by_name = dict_set nm (make_entry nm it) (items_by_name st),
      locations = (if is_location (item_tags it) then dict_set nm (make_aux nm it) (locations st)
                   else locations st),
      equipment = (if is_equipment (item_tags it) then dict_set nm (make_aux nm it) (equipment st)
                   else equipment st)\<rparr>"
  by (simp add: index_item_def truthy_def)

lemma has_name_iff: "has_name it \<longleftrightarrow> (\<exists>nm. name it = Some nm \<and> nm \<noteq> [])"
  by (simp add: has_name_def truthy_def split: option.splits)

lemma fold_index_filter: "fold index_item (filter has_name items) st = fold index_item items st"
  by (induction items arbitrary: st) (simp_all add: index_item_skip)

lemma items_by_name_lookup_fold:
  "map_of (items_by_name (fold index_item items st)) n =
     (case List.find (\<lambda>it. name it = Some n) (rev items) of
        None \<Rightarrow> map_of (items_by_name st) n
      | Some it \<Rightarrow> if n = [] then map_of (items_by_name st) n else Some (make_entry n it))"
proof (induction items rule: rev_induct)
  case Nil
  show ?case by simp
next
  case (snoc it items)
  show ?case
  proof (cases "has_name it")
    case False
    then have "name it \<noteq> Some n \<or> n = []" by (auto simp: has_name_iff)
    with False snoc show ?thesis by (auto simp: index_item_skip split: option.splits)
  next
    case True
    then obtain nm where nm: "name it = Some nm" "nm \<noteq> []" by (auto simp: has_name_iff)
    with snoc show ?thesis
      by (auto simp: index_item_named dict_set_def update_conv')
  qed
qed

lemma items_by_name_keys_fold:
  "fst ` set (items_by_name (fold index_item items st)) =
     fst ` set (items_by_name st) \<union> {n. n \<noteq> [] \<and> (\<exists>it \<in> set items. name it = Some n)}"
proof (induction items rule: rev_induct)
  case Nil
  show ?case by simp
next
  case (snoc it items)
  show ?case
  proof (cases "has_name it")
    case False
    then have "\<And>n. name it = Some n \<Longrightarrow> n = []" by (auto simp: has_name_iff)
    with False snoc show ?thesis by (auto simp: index_item_skip)
  next
    case True
    then obtain nm where nm: "name it = Some nm" "nm \<noteq> []" by (auto simp: has_name_iff)
    with snoc show ?thesis
      by (auto simp: index_item_named dict_set_def dom_update)
  qed
qed

lemma placed_under_Nil [simp]: "placed_under K p [] = []"
  by (simp add: placed_under_def)

lemma placed_under_Cons:
  "placed_under K p ((n, a) # xs) =
     (if first_candidate K (a_groupNames a) = p then n # placed_under K p xs else placed_under K p xs)"
  by (simp add: placed_under_def)

lemma parent_locations_keys:
  "parent_locations nodes gs = filter (\<lambda>g. g \<in> set (dict_keys nodes)) gs"
  unfolding parent_locations_def by (rule filter_cong) (simp_all add: dict_has_def)

lemma first_candidate_hd:
  "first_candidate K gs = Some c \<Longrightarrow> c \<in> set K"
  by (auto simp: first_candidate_def split: list.splits dest: filter_eq_ConsD)

lemma dict_get_Some: "map_of d k = Some v \<Longrightarrow> dict_get d k = Inr v"
  by (simp add: dict_get_def)

lemma map_of_in_keys: "k \<in> set (dict_keys d) \<Longrightarrow> \<exists>v. map_of d k = Some v"
  by (metis dict_keys_def domD dom_map_of_conv_image_fst image_set)

lemma dict_keys_set_existing:
  "k \<in> set (dict_keys d) \<Longrightarrow> dict_keys (dict_set k v d) = dict_keys d"
  by (simp add: dict_keys_def dict_set_def update_keys)

lemma map_of_dict_set: "map_of (dict_set k v d) = (map_of d)(k \<mapsto> v)"
  by (simp add: dict_set_def update_conv')

lemma assign_location_step:
  assumes n: "n \<in> set (dict_keys (location_nodes st))"
  defines "K \<equiv> dict_keys (location_nodes st)"
  shows "\<exists>st'. assign_location (n, a) st = Inr st' \<and>
     dict_keys (location_nodes st') = K \<and>
     semantic_tree st' = semantic_tree st @ placed_under K None [(n, a)] \<and>
     (\<forall>p. map_of (location_nodes st') p =
        map_option (\<lambda>nd. nd\<lparr>children_locations := children_locations nd @ placed_under K (Some p) [(n, a)]\<rparr>)
          (map_of (location_nodes st) p)) \<and>
     equipment_objs st' = equipment_objs st \<and> equipment_nodes st' = equipment_nodes st"
proof (cases "first_candidate K (a_groupNames a)")
  case None
  then have pl: "parent_locations (location_nodes st) (a_groupNames a) = []"
    by (simp add: first_candidate_def parent_locations_keys K_def split: list.splits)
  from n obtain nd where "map_of (location_nodes st) n = Some nd"
    using map_of_in_keys by blast
  then have "assign_location (n, a) st = Inr (st\<lparr>semantic_tree := semantic_tree st @ [n]\<rparr>)"
    by (simp add: assign_location_def pl dict_get_Some)
  with None show ?thesis
    by (simp add: placed_under_Cons K_def option.map_ident_strong)
next
  case (Some c)
  then obtain cs where pl: "parent_locations (location_nodes st) (a_groupNames a) = c # cs"
    by (auto simp: first_candidate_def parent_locations_keys K_def split: list.splits)
  from Some have cK: "c \<in> set K" by (rule first_candidate_hd)
  then obtain cnd where cnd: "map_of (location_nodes st) c = Some cnd"
    using map_of_in_keys K_def by blast
  from n obtain nd where nd: "map_of (location_nodes st) n = Some nd"
    using map_of_in_keys by blast
  have "assign_location (n, a) st =
     Inr (st\<lparr>location_nodes := dict_set c (cnd\<lparr>children_locations := children_locations cnd @ [n]\<rparr>)
             (location_nodes st)\<rparr>)"
    by (simp add: assign_location_def pl dict_get_Some cnd nd)
  with Some cK cnd show ?thesis
    by (auto simp: placed_under_Cons K_def dict_keys_set_existing map_of_dict_set map_option_case
             split: option.splits)
qed

lemma placed_under_append_single:
  "placed_under K p [x] @ placed_under K p xs = placed_under K p (x # xs)"
  by (simp add: placed_under_def)

lemma assign_locations_fold:
  assumes "fst ` set xs \<subseteq> set (dict_keys (location_nodes st))"
  shows "\<exists>st'. foldE assign_location xs st = Inr st' \<and>
     dict_keys (location_nodes st') = dict_keys (location_nodes st) \<and>
     semantic_tree st' = semantic_tree st @ placed_under (dict_keys (location_nodes st)) None xs \<and>
     (\<forall>p. map_of (location_nodes st') p =
        map_option (\<lambda>nd. nd\<lparr>children_locations :=
            children_locations nd @ placed_under (dict_keys (location_nodes st)) (Some p) xs\<rparr>)
          (map_of (location_nodes st) p)) \<and>
     equipment_objs st' = equipment_objs st \<and> equipment_nodes st' = equipment_nodes st"
  using assms
proof (induction xs arbitrary: st)
  case Nil
  show ?case by (simp add: option.map_ident_strong)
next
  case (Cons x xs)
  obtain n a where x: "x = (n, a)" by (cases x)
  define K where "K = dict_keys (location_nodes st)"
  from Cons.prems x have n: "n \<in> set (dict_keys (location_nodes st))" by simp
  from assign_location_step[OF n, of a] obtain st1 where
    s1: "assign_location (n, a) st = Inr st1"
    and k1: "dict_keys (location_nodes st1) = K"
    and r1: "semantic_tree st1 = semantic_tree st @ placed_under K None [(n, a)]"
    and m1: "\<And>p. map_of (location_nodes st1) p =
        map_option (\<lambda>nd. nd\<lparr>children_locations := children_locations nd @ placed_under K (Some p) [(n, a)]\<rparr>)
          (map_of (location_nodes st) p)"
    and o1: "equipment_objs st1 = equipment_objs st" "equipment_nodes st1 = equipment_nodes st"
    unfolding K_def by blast
  from Cons.prems k1 have "fst ` set xs \<subseteq> set (dict_keys (location_nodes st1))"
    by (simp add: K_def)
  from Cons.IH[OF this] obtain st' where
    s2: "foldE assign_location xs st1 = Inr st'"
    and k2: "dict_keys (location_nodes st') = K"
    and r2: "semantic_tree st' = semantic_tree st1 @ placed_under K None xs"
    and m2: "\<And>p. map_of (location_nodes st') p =
        map_option (\<lambda>nd. nd\<lparr>children_locations := children_locations nd @ placed_under K (Some p) xs\<rparr>)
          (map_of (location_nodes st1) p)"
    and o2: "equipment_objs st' = equipment_objs st1" "equipment_nodes st' = equipment_nodes st1"
    unfolding k1 by blast
  have "foldE assign_location (x # xs) st = Inr st'" by (simp add: x s1 s2)
  moreover have "semantic_tree st' = semantic_tree st @ placed_under K None (x # xs)"
    by (simp add: r2 r1 x placed_under_append_single)
  moreover have "map_of (location_nodes st') p =
        map_option (\<lambda>nd. nd\<lparr>children_locations := children_locations nd @ placed_under K (Some p) (x # xs)\<rparr>)
          (map_of (location_nodes st) p)" for p
  proof -
    have e: "placed_under K (Some p) (x # xs) =
        placed_under K (Some p) [(n, a)] @ placed_under K (Some p) xs"
      by (simp add: x placed_under_def)
    show ?thesis by (simp add: m2 m1 e option.map_comp comp_def)
  qed
  ultimately show ?case using k2 o1 o2 unfolding K_def by auto
qed

lemma attach_equipment_step:
  fixes st e a
  defines "K \<equiv> dict_keys (location_nodes st)"
  shows "\<exists>st'. attach_equipment (e, a) st = Inr st' \<and>
     dict_keys (location_nodes st') = K \<and>
     semantic_tree st' = semantic_tree st \<and>
     (\<forall>p. map_of (location_nodes st') p =
        map_option (\<lambda>nd. nd\<lparr>node_equipment := node_equipment nd @ placed_under K (Some p) [(e, a)]\<rparr>)
          (map_of (location_nodes st) p)) \<and>
     equipment_objs st' =
       (if first_candidate K (a_groupNames a) = None then equipment_objs st
        else dict_set e (new_equipment_node e) (equipment_objs st)) \<and>
     equipment_nodes st' = equipment_nodes st"
proof (cases "first_candidate K (a_groupNames a)")
  case None
  then have pl: "parent_locations (location_nodes st) (a_groupNames a) = []"
    by (simp add: first_candidate_def parent_locations_keys K_def split: list.splits)
  then have "attach_equipment (e, a) st = Inr st"
    by (simp add: attach_equipment_def)
  with None show ?thesis
    by (simp add: placed_under_Cons K_def option.map_ident_strong)
next
  case (Some c)
  then obtain cs where pl: "parent_locations (location_nodes st) (a_groupNames a) = c # cs"
    by (auto simp: first_candidate_def parent_locations_keys K_def split: list.splits)
  from Some have cK: "c \<in> set K" by (rule first_candidate_hd)
  then obtain cnd where cnd: "map_of (location_nodes st) c = Some cnd"
    using map_of_in_keys K_def by blast
  have "attach_equipment (e, a) st =
     Inr (st\<lparr>location_nodes := dict_set c (cnd\<lparr>node_equipment := node_equipment cnd @ [e]\<rparr>)
             (location_nodes st),
            equipment_objs := dict_set e (new_equipment_node e) (equipment_objs st)\<rparr>)"
    by (simp add: attach_equipment_def pl dict_get_Some cnd new_equipment_node_def)
  with Some cK cnd show ?thesis
    by (auto simp: placed_under_Cons K_def dict_keys_set_existing map_of_dict_set map_option_case
             split: option.splits)
qed

lemma attached_Cons:
  "attached K ((n, a) # xs) =
     (if first_candidate K (a_groupNames a) = None then attached K xs else n # attached K xs)"
  by (simp add: attached_def)

lemma dict_keys_dict_set: "set (dict_keys (dict_set k v d)) = insert k (set (dict_keys d))"
  by (auto simp: dict_keys_def dict_set_def dom_update)

lemma distinct_dict_set: "distinct (dict_keys d) \<Longrightarrow> distinct (dict_keys (dict_set k v d))"
  by (simp add: dict_keys_def dict_set_def distinct_update)

lemma attach_equipment_fold:
  fixes st xs
  defines "K \<equiv> dict_keys (location_nodes st)"
  assumes dx: "distinct (map fst xs)"
  shows "\<exists>st'. foldE attach_equipment xs st = Inr st' \<and>
     dict_keys (location_nodes st') = K \<and>
     semantic_tree st' = semantic_tree st \<and>
     (\<forall>p. map_of (location_nodes st') p =
        map_option (\<lambda>nd. nd\<lparr>node_equipment := node_equipment nd @ placed_under K (Some p) xs\<rparr>)
          (map_of (location_nodes st) p)) \<and>
     (\<forall>e. map_of (equipment_objs st') e =
        (if e \<in> set (attached K xs) then Some (new_equipment_node e)
         else map_of (equipment_objs st) e)) \<and>
     set (dict_keys (equipment_objs st')) = set (dict_keys (equipment_objs st)) \<union> set (attached K xs) \<and>
     (distinct (dict_keys (equipment_objs st)) \<longrightarrow> distinct (dict_keys (equipment_objs st'))) \<and>
     equipment_nodes st' = equipment_nodes st"
  using dx unfolding K_def
proof (induction xs arbitrary: st)
  case Nil
  show ?case by (simp add: option.map_ident_strong attached_def)
next
  case (Cons x xs)
  obtain n a where x: "x = (n, a)" by (cases x)
  define K where "K = dict_keys (location_nodes st)"
  from attach_equipment_step[of n a st] obtain st1 where
    s1: "attach_equipment (n, a) st = Inr st1"
    and k1: "dict_keys (location_nodes st1) = K"
    and r1: "semantic_tree st1 = semantic_tree st"
    and m1: "\<And>p. map_of (location_nodes st1) p =
        map_option (\<lambda>nd. nd\<lparr>node_equipment := node_equipment nd @ placed_under K (Some p) [(n, a)]\<rparr>)
          (map_of (location_nodes st) p)"
    and e1: "equipment_objs st1 =
       (if first_candidate K (a_groupNames a) = None then equipment_objs st
        else dict_set n (new_equipment_node n) (equipment_objs st))"
    and o1: "equipment_nodes st1 = equipment_nodes st"
    unfolding K_def by blast
  from Cons.prems have dxs: "distinct (map fst xs)" by simp
  from Cons.IH[OF dxs, of st1] obtain st' where
    s2: "foldE attach_equipment xs st1 = Inr st'"
    and k2: "dict_keys (location_nodes st') = K"
    and r2: "semantic_tree st' = semantic_tree st1"
    and m2: "\<And>p. map_of (location_nodes st') p =
        map_option (\<lambda>nd. nd\<lparr>node_equipment := node_equipment nd @ placed_under K (Some p) xs\<rparr>)
          (map_of (location_nodes st1) p)"
    and e2: "\<And>e. map_of (equipment_objs st') e =
        (if e \<in> set (attached K xs) then Some (new_equipment_node e)
         else map_of (equipment_objs st1) e)"
    and ks2: "set (dict_keys (equipment_objs st')) = set (dict_keys (equipment_objs st1)) \<union> set (attached K xs)"
    and d2: "distinct (dict_keys (equipment_objs st1)) \<longrightarrow> distinct (dict_keys (equipment_objs st'))"
    and o2: "equipment_nodes st' = equipment_nodes st1"
    unfolding k1 by blast
  have "foldE attach_equipment (x # xs) st = Inr st'" by (simp add: x s1 s2)
  moreover have "map_of (location_nodes st') p =
        map_option (\<lambda>nd. nd\<lparr>node_equipment := node_equipment nd @ placed_under K (Some p) (x # xs)\<rparr>)
          (map_of (location_nodes st) p)" for p
  proof -
    have e: "placed_under K (Some p) (x # xs) =
        placed_under K (Some p) [(n, a)] @ placed_under K (Some p) xs"
      by (simp add: x placed_under_def)
    show ?thesis by (simp add: m2 m1 e option.map_comp comp_def)
  qed
  moreover have "map_of (equipment_objs st') e =
        (if e \<in> set (attached K (x # xs)) then Some (new_equipment_node e)
         else map_of (equipment_objs st) e)" for e
    by (simp add: e2 e1 x attached_Cons map_of_dict_set)
  moreover have "set (dict_keys (equipment_objs st')) =
      set (dict_keys (equipment_objs st)) \<union> set (attached K (x # xs))"
    by (auto simp: ks2 e1 x attached_Cons dict_keys_dict_set)
  moreover have "distinct (dict_keys (equipment_objs st)) \<longrightarrow> distinct (dict_keys (equipment_objs st'))"
    using d2 by (auto simp: e1 distinct_dict_set)
  ultimately show ?case using k2 r1 r2 o1 o2 unfolding K_def by auto
qed

lemma update_fresh: "k \<notin> fst ` set al \<Longrightarrow> AList.update k v al = al @ [(k, v)]"
  by (induction al) auto

lemma create_nodes_fold:
  "distinct (map fst acc @ map fst locs) \<Longrightarrow>
   fold (\<lambda>(loc_name, loc) nodes. dict_set loc_name (new_location_node loc_name) nodes) locs acc =
     acc @ map (\<lambda>(n, a). (n, new_location_node n)) locs"
proof (induction locs arbitrary: acc)
  case Nil
  show ?case by simp
next
  case (Cons x locs)
  obtain n a where x: "x = (n, a)" by (cases x)
  from Cons.prems x have fresh: "n \<notin> fst ` set acc" by auto
  from Cons.prems x have "distinct (map fst (acc @ [(n, new_location_node n)]) @ map fst locs)"
    by auto
  from Cons.IH[OF this] show ?case
    by (simp add: x dict_set_def update_fresh[OF fresh])
qed

lemma create_location_nodes_eq:
  "distinct (map fst locs) \<Longrightarrow>
   create_location_nodes locs = map (\<lambda>(n, a). (n, new_location_node n)) locs"
  using create_nodes_fold[of "[]" locs] by (simp add: create_location_nodes_def)

lemma create_location_nodes_keys:
  "distinct (map fst locs) \<Longrightarrow> dict_keys (create_location_nodes locs) = map fst locs"
  by (simp add: create_location_nodes_eq dict_keys_def case_prod_beta comp_def)

lemma create_location_nodes_lookup:
  "distinct (map fst locs) \<Longrightarrow>
   map_of (create_location_nodes locs) p =
     (if p \<in> set (map fst locs) then Some (new_location_node p) else None)"
  by (induction locs) (auto simp: create_location_nodes_eq)

lemma chain_parent_in_tail:
  "chain par xs \<Longrightarrow> x \<in> set xs \<Longrightarrow> par x = Some y \<Longrightarrow> y \<in> set (tl xs)"
proof (induction par xs rule: chain.induct)
  case (1 par)
  then show ?case by simp
next
  case (2 par r)
  then show ?case by simp
next
  case (3 par n p rest)
  show ?case
  proof (cases "x = n")
    case True
    with 3 show ?thesis by simp
  next
    case False
    with 3 have "y \<in> set (tl (p # rest))" by simp
    then show ?thesis by simp
  qed
qed

lemma chain_child_fresh:
  assumes "chain par (n # rest)" "distinct (n # rest)" "par c = Some n"
  shows "c \<notin> set (n # rest)"
proof
  assume "c \<in> set (n # rest)"
  from chain_parent_in_tail[OF assms(1) this assms(3)] have "n \<in> set rest" by simp
  with assms(2) show False by simp
qed

lemma distinct_subset_length:
  assumes "distinct xs" "set xs \<subseteq> set ys"
  shows "length xs \<le> length ys"
proof -
  have "length xs = card (set xs)" using assms(1) by (simp add: distinct_card)
  also have "\<dots> \<le> card (set ys)" using assms(2) by (simp add: card_mono)
  also have "\<dots> \<le> length ys" by (rule card_length)
  finally show ?thesis .
qed

lemma foldE_total:
  "(\<And>x s. x \<in> set xs \<Longrightarrow> \<exists>s'. f x s = Inr s') \<Longrightarrow> \<exists>s'. foldE f xs s = Inr s'"
proof (induction xs arbitrary: s)
  case Nil
  show ?case by simp
next
  case (Cons x xs)
  from Cons.prems[of x s] obtain s1 where "f x s = Inr s1" by auto
  moreover from Cons.IH[of s1] Cons.prems obtain s' where "foldE f xs s1 = Inr s'" by auto
  ultimately show ?case by simp
qed

lemma register_total:
  "e \<in> set (dict_keys objs) \<Longrightarrow> \<exists>eqn'. register_equipment objs e eqn = Inr eqn'"
  using map_of_in_keys[of e objs] by (auto simp: register_equipment_def dict_get_Some)

lemma collect_terminates:
  assumes fs: "forest_store par nodes objs"
  shows "chain par (n # rest) \<Longrightarrow> distinct (n # rest) \<Longrightarrow> set (n # rest) \<subseteq> set (dict_keys nodes) \<Longrightarrow>
     length (dict_keys nodes) \<le> d + length rest \<Longrightarrow>
     \<exists>eqn'. collect_equipment_nodes d nodes objs n eqn = Inr eqn'"
proof (induction d arbitrary: n rest eqn)
  case 0
  from distinct_subset_length[OF "0.prems"(2,3)] "0.prems"(4) show ?case by simp
next
  case (Suc d)
  from Suc.prems(3) obtain nd where nd: "map_of nodes n = Some nd"
    using map_of_in_keys[of n nodes] by auto
  from fs nd have ch: "\<And>c. c \<in> set (children_locations nd) \<Longrightarrow> par c = Some n \<and> c \<in> set (dict_keys nodes)"
    and eq: "\<And>e. e \<in> set (node_equipment nd) \<Longrightarrow> e \<in> set (dict_keys objs)"
    by (auto simp: forest_store_def)
  from foldE_total[of "node_equipment nd" "register_equipment objs" eqn] eq
  obtain eqn1 where r: "foldE (register_equipment objs) (node_equipment nd) eqn = Inr eqn1"
    using register_total by blast
  have "\<exists>s'. collect_equipment_nodes d nodes objs c s = Inr s'"
    if c: "c \<in> set (children_locations nd)" for c s
  proof -
    from ch[OF c] have pc: "par c = Some n" and ck: "c \<in> set (dict_keys nodes)" by auto
    from chain_child_fresh[OF Suc.prems(1,2) pc] have fresh: "c \<notin> set (n # rest)" .
    have "chain par (c # n # rest)" using pc Suc.prems(1) by simp
    moreover have "distinct (c # n # rest)" using fresh Suc.prems(2) by simp
    moreover have "set (c # n # rest) \<subseteq> set (dict_keys nodes)" using ck Suc.prems(3) by simp
    moreover have "length (dict_keys nodes) \<le> d + length (n # rest)" using Suc.prems(4) by simp
    ultimately show ?thesis by (rule Suc.IH)
  qed
  from foldE_total[of "children_locations nd" "collect_equipment_nodes d nodes objs" eqn1, OF this]
  obtain eqn' where "foldE (collect_equipment_nodes d nodes objs) (children_locations nd) eqn1 = Inr eqn'"
    by blast
  then show ?case by (simp add: dict_get_Some nd r)
qed

lemma collect_all_terminates:
  assumes fs: "forest_store par (location_nodes st) (equipment_objs st)"
    and roots: "\<And>r. r \<in> set (semantic_tree st) \<Longrightarrow> par r = None \<and> r \<in> set (dict_keys (location_nodes st))"
    and d: "length (dict_keys (location_nodes st)) \<le> d"
  shows "\<exists>eqn'. collect_all d st = Inr (st\<lparr>equipment_nodes := eqn'\<rparr>)"
proof -
  have "\<exists>s'. collect_equipment_nodes d (location_nodes st) (equipment_objs st) r s = Inr s'"
    if r: "r \<in> set (semantic_tree st)" for r s
  proof -
    from roots[OF r] have "chain par (r # [])" "distinct (r # [])"
      "set (r # []) \<subseteq> set (dict_keys (location_nodes st))" by auto
    moreover have "length (dict_keys (location_nodes st)) \<le> d + length ([]::string list)"
      using d by simp
    ultimately show ?thesis by (rule collect_terminates[OF fs])
  qed
  from foldE_total[of "semantic_tree st"
      "collect_equipment_nodes d (location_nodes st) (equipment_objs st)" "equipment_nodes st", OF this]
  obtain eqn' where "foldE (collect_equipment_nodes d (location_nodes st) (equipment_objs st))
      (semantic_tree st) (equipment_nodes st) = Inr eqn'" by blast
  then have "collect_all d st = Inr (st\<lparr>equipment_nodes := eqn'\<rparr>)"
    by (simp add: collect_all_def)
  then show ?thesis by blast
qed

lemma flat_ok_index_item: "flat_ok st \<Longrightarrow> flat_ok (index_item it st)"
proof (cases "has_name it")
  case False
  assume "flat_ok st"
  with False show ?thesis by (simp add: index_item_skip)
next
  case True
  assume ok: "flat_ok st"
  from True obtain nm where nm: "name it = Some nm" "nm \<noteq> []" by (auto simp: has_name_iff)
  from ok show ?thesis
    unfolding flat_ok_def index_item_named[OF nm]
    by (auto simp: dict_keys_dict_set distinct_dict_set nm(2))
qed

lemma flat_ok_fold: "flat_ok st \<Longrightarrow> flat_ok (fold index_item items st)"
  by (induction items arbitrary: st) (simp_all add: flat_ok_index_item)

lemma flat_ok_build: "flat_ok (build_flat_index items)"
  unfolding build_flat_index_def
  by (rule flat_ok_fold) (simp add: flat_ok_def empty_index_def dict_keys_def)

lemma assemble_closed:
  assumes ok: "flat_ok fl"
  defines "K \<equiv> dict_keys (locations fl)"
  shows "\<exists>st. assemble_locations fl = Inr st \<and>
     dict_keys (location_nodes st) = K \<and>
     semantic_tree st = placed_under K None (locations fl) \<and>
     (\<forall>p. map_of (location_nodes st) p = (if p \<in> set K then Some (assembled_node fl p) else None)) \<and>
     (\<forall>e. map_of (equipment_objs st) e =
        (if e \<in> set (attached K (equipment fl)) then Some (new_equipment_node e) else None)) \<and>
     set (dict_keys (equipment_objs st)) = set (attached K (equipment fl)) \<and>
     distinct (dict_keys (equipment_objs st)) \<and>
     equipment_nodes st = []"
proof -
  from ok have dl: "distinct (map fst (locations fl))" and de: "distinct (map fst (equipment fl))"
    by (simp_all add: flat_ok_def dict_keys_def)
  define st0 where "st0 = initial_tree fl"
  have k0: "dict_keys (location_nodes st0) = K"
    using create_location_nodes_keys[OF dl]
    by (simp add: st0_def initial_tree_def K_def dict_keys_def)
  have m0: "map_of (location_nodes st0) p =
      (if p \<in> set K then Some (new_location_node p) else None)" for p
    by (simp add: st0_def initial_tree_def create_location_nodes_lookup[OF dl] K_def dict_keys_def)
  have "fst ` set (locations fl) \<subseteq> set (dict_keys (location_nodes st0))"
    unfolding k0 by (simp add: K_def dict_keys_def)
  from assign_locations_fold[OF this] obtain st1 where
    s1: "foldE assign_location (locations fl) st0 = Inr st1"
    and k1: "dict_keys (location_nodes st1) = K"
    and r1: "semantic_tree st1 = semantic_tree st0 @ placed_under K None (locations fl)"
    and m1: "\<And>p. map_of (location_nodes st1) p =
        map_option (\<lambda>nd. nd\<lparr>children_locations :=
            children_locations nd @ placed_under K (Some p) (locations fl)\<rparr>)
          (map_of (location_nodes st0) p)"
    and o1: "equipment_objs st1 = equipment_objs st0" "equipment_nodes st1 = equipment_nodes st0"
    unfolding k0 by blast
  from attach_equipment_fold[OF de, of st1] obtain st2 where
    s2: "foldE attach_equipment (equipment fl) st1 = Inr st2"
    and k2: "dict_keys (location_nodes st2) = K"
    and r2: "semantic_tree st2 = semantic_tree st1"
    and m2: "\<And>p. map_of (location_nodes st2) p =
        map_option (\<lambda>nd. nd\<lparr>node_equipment := node_equipment nd @ placed_under K (Some p) (equipment fl)\<rparr>)
          (map_of (location_nodes st1) p)"
    and e2: "\<And>e. map_of (equipment_objs st2) e =
        (if e \<in> set (attached K (equipment fl)) then Some (new_equipment_node e)
         else map_of (equipment_objs st1) e)"
    and ks2: "set (dict_keys (equipment_objs st2)) =
        set (dict_keys (equipment_objs st1)) \<union> set (attached K (equipment fl))"
    and d2: "distinct (dict_keys (equipment_objs st1)) \<longrightarrow> distinct (dict_keys (equipment_objs st2))"
    and o2: "equipment_nodes st2 = equipment_nodes st1"
    unfolding k1 by blast
  have i0: "semantic_tree st0 = []" "equipment_objs st0 = []" "equipment_nodes st0 = []"
    by (simp_all add: st0_def initial_tree_def)
  have "assemble_locations fl = Inr st2"
    using s1 s2 by (simp add: assemble_locations_def st0_def)
  moreover have "semantic_tree st2 = placed_under K None (locations fl)"
    by (simp add: r2 r1 i0)
  moreover have "map_of (location_nodes st2) p =
      (if p \<in> set K then Some (assembled_node fl p) else None)" for p
    by (simp add: m2 m1 m0 assembled_node_def new_location_node_def K_def)
  moreover have "map_of (equipment_objs st2) e =
      (if e \<in> set (attached K (equipment fl)) then Some (new_equipment_node e) else None)" for e
    by (simp add: e2 o1 i0)
  moreover have "set (dict_keys (equipment_objs st2)) = set (attached K (equipment fl))"
    unfolding ks2 o1 i0 by (simp add: dict_keys_def)
  moreover have "distinct (dict_keys (equipment_objs st2))"
  proof -
    have "distinct (dict_keys (equipment_objs st1))" unfolding o1 i0 by (simp add: dict_keys_def)
    with d2 show ?thesis by blast
  qed
  moreover have "equipment_nodes st2 = []" by (simp add: o2 o1 i0)
  ultimately show ?thesis using k2 by blast
qed

lemma placed_under_mem:
  "distinct (map fst xs) \<Longrightarrow>
   c \<in> set (placed_under K p xs) \<longleftrightarrow>
     (\<exists>a. map_of xs c = Some a \<and> first_candidate K (a_groupNames a) = p)"
  by (force simp: placed_under_def)

lemma attached_mem:
  "distinct (map fst xs) \<Longrightarrow>
   e \<in> set (attached K xs) \<longleftrightarrow>
     (\<exists>a. map_of xs e = Some a \<and> first_candidate K (a_groupNames a) \<noteq> None)"
  by (force simp: attached_def)

lemma map_of_keys: "map_of d k = Some v \<Longrightarrow> k \<in> set (dict_keys d)"
  by (auto simp: dict_keys_def dest: map_of_SomeD intro: rev_image_eqI)

lemma assembled_forest:
  assumes ok: "flat_ok fl"
    and st: "assemble_locations fl = Inr st"
  shows "forest_store (parent_of fl) (location_nodes st) (equipment_objs st)"
    and "\<And>r. r \<in> set (semantic_tree st) \<Longrightarrow>
          parent_of fl r = None \<and> r \<in> set (dict_keys (location_nodes st))"
proof -
  define K where "K = dict_keys (locations fl)"
  from ok have dl: "distinct (map fst (locations fl))" and de: "distinct (map fst (equipment fl))"
    by (simp_all add: flat_ok_def dict_keys_def)
  from assemble_closed[OF ok] st have
    k: "dict_keys (location_nodes st) = K"
    and r: "semantic_tree st = placed_under K None (locations fl)"
    and m: "\<And>p. map_of (location_nodes st) p = (if p \<in> set K then Some (assembled_node fl p) else None)"
    and ks: "set (dict_keys (equipment_objs st)) = set (attached K (equipment fl))"
    unfolding K_def by auto
  show "forest_store (parent_of fl) (location_nodes st) (equipment_objs st)"
    unfolding forest_store_def
  proof (intro allI impI conjI ballI)
    fix p nd c
    assume "map_of (location_nodes st) p = Some nd" "c \<in> set (children_locations nd)"
    then have c: "c \<in> set (placed_under K (Some p) (locations fl))"
      by (auto simp: m assembled_node_def K_def split: if_splits)
    then obtain a where a: "map_of (locations fl) c = Some a"
      "first_candidate K (a_groupNames a) = Some p"
      using placed_under_mem[OF dl] by blast
    then show "parent_of fl c = Some p" by (simp add: parent_of_def K_def)
    from a(1) show "c \<in> set (dict_keys (location_nodes st))"
      unfolding k K_def by (rule map_of_keys)
  next
    fix p nd e
    assume "map_of (location_nodes st) p = Some nd" "e \<in> set (node_equipment nd)"
    then have "e \<in> set (placed_under K (Some p) (equipment fl))"
      by (auto simp: m assembled_node_def K_def split: if_splits)
    then have "e \<in> set (attached K (equipment fl))"
      using placed_under_mem[OF de] attached_mem[OF de] by auto
    then show "e \<in> set (dict_keys (equipment_objs st))" by (simp add: ks)
  qed
  fix r0
  assume "r0 \<in> set (semantic_tree st)"
  then obtain a where a: "map_of (locations fl) r0 = Some a"
      "first_candidate K (a_groupNames a) = None"
    unfolding r using placed_under_mem[OF dl] by blast
  then show "parent_of fl r0 = None \<and> r0 \<in> set (dict_keys (location_nodes st))"
    unfolding k using map_of_keys[OF a(1)] by (simp add: parent_of_def K_def)
qed

lemma foldE_mono:
  "(\<And>x s r. x \<in> set xs \<Longrightarrow> f x s = r \<Longrightarrow> r \<noteq> Inl RecursionError \<Longrightarrow> g x s = r) \<Longrightarrow>
   foldE f xs s = r \<Longrightarrow> r \<noteq> Inl RecursionError \<Longrightarrow> foldE g xs s = r"
proof (induction xs arbitrary: s)
  case Nil
  then show ?case by simp
next
  case (Cons x xs)
  show ?case
  proof (cases "f x s")
    case (Inl e)
    from Inl Cons.prems(2) have r: "r = Inl e" by simp
    with Cons.prems(3) have "e \<noteq> RecursionError" by simp
    with Cons.prems(1)[of x s "Inl e"] Inl have ge: "g x s = Inl e" by simp
    show ?thesis unfolding r by (simp add: ge)
  next
    case (Inr s1)
    with Cons.prems(1)[of x s "Inr s1"] have g1: "g x s = Inr s1" by simp
    from Inr Cons.prems(2) have "foldE f xs s1 = r" by simp
    with Cons.IH[of s1] Cons.prems(1,3) have "foldE g xs s1 = r" by simp
    with g1 show ?thesis by simp
  qed
qed

lemma collect_Suc:
  "collect_equipment_nodes d nodes objs n eqn = r \<Longrightarrow> r \<noteq> Inl RecursionError \<Longrightarrow>
   collect_equipment_nodes (Suc d) nodes objs n eqn = r"
proof (induction d arbitrary: n eqn r)
  case 0
  then show ?case by simp
next
  case (Suc d)
  show ?case
  proof (cases "dict_get nodes n")
    case (Inl e)
    with Suc.prems show ?thesis by auto
  next
    case (Inr nd)
    show ?thesis
    proof (cases "foldE (register_equipment objs) (node_equipment nd) eqn")
      case (Inl e)
      with Suc.prems Inr show ?thesis by auto
    next
      case r1: (Inr eqn1)
      with Suc.prems(1) Inr have
        "foldE (collect_equipment_nodes d nodes objs) (children_locations nd) eqn1 = r"
        by simp
      then have "foldE (collect_equipment_nodes (Suc d) nodes objs) (children_locations nd) eqn1 = r"
        using Suc.prems(2) by (rule foldE_mono[rotated]) (rule Suc.IH)
      with Inr r1 show ?thesis by simp
    qed
  qed
qed

lemma collect_mono:
  "collect_equipment_nodes d nodes objs n eqn = r \<Longrightarrow> r \<noteq> Inl RecursionError \<Longrightarrow>
   collect_equipment_nodes (d + k) nodes objs n eqn = r"
proof (induction k)
  case 0
  then show ?case by simp
next
  case (Suc k)
  then have "collect_equipment_nodes (Suc (d + k)) nodes objs n eqn = r"
    by (intro collect_Suc) simp_all
  then show ?case by (simp only: add_Suc_right)
qed

lemma collect_all_mono:
  assumes "collect_all d st = r" "r \<noteq> Inl RecursionError"
  shows "collect_all (d + k) st = r"
proof -
  let ?f = "\<lambda>d. foldE (collect_equipment_nodes d (location_nodes st) (equipment_objs st))
             (semantic_tree st) (equipment_nodes st)"
  from assms have ne: "?f d \<noteq> Inl RecursionError"
    by (auto simp: collect_all_def split: sum.splits)
  have "?f (d + k) = ?f d"
    by (rule foldE_mono[rotated, OF refl ne]) (rule collect_mono)
  with assms(1) show ?thesis by (simp add: collect_all_def)
qed

lemma foldE_inv:
  "(\<And>x s s'. I s \<Longrightarrow> f x s = Inr s' \<Longrightarrow> I s') \<Longrightarrow> I s \<Longrightarrow> foldE f xs s = Inr s' \<Longrightarrow> I s'"
proof (induction xs arbitrary: s)
  case Nil
  then show ?case by simp
next
  case (Cons x xs)
  from Cons.prems(3) obtain s1 where s1: "f x s = Inr s1" "foldE f xs s1 = Inr s'"
    by (auto split: sum.splits)
  from Cons.prems(1)[OF Cons.prems(2) s1(1)] have "I s1" .
  from Cons.IH[OF Cons.prems(1) this s1(2)] show ?case .
qed

lemma register_ok:
  assumes "objs_ok objs" "eqn_ok objs eqn" "register_equipment objs e eqn = Inr eqn'"
  shows "eqn_ok objs eqn'"
proof -
  from assms(3) obtain ob where ob: "map_of objs e = Some ob" "eqn' = dict_set (eq_item ob) e eqn"
    by (auto simp: register_equipment_def dict_get_def split: option.splits)
  from assms(1) ob(1) have "eq_item ob = e" by (simp add: objs_ok_def)
  with ob assms(2) show ?thesis
    by (auto simp: eqn_ok_def map_of_dict_set map_of_keys)
qed

lemma collect_ok:
  assumes "objs_ok objs"
  shows "eqn_ok objs eqn \<Longrightarrow> collect_equipment_nodes d nodes objs n eqn = Inr eqn' \<Longrightarrow>
     eqn_ok objs eqn'"
proof (induction d arbitrary: n eqn eqn')
  case 0
  then show ?case by simp
next
  case (Suc d)
  obtain nd where nd: "dict_get nodes n = Inr nd"
    using Suc.prems(2) by (cases "dict_get nodes n") auto
  obtain eqn1 where r: "foldE (register_equipment objs) (node_equipment nd) eqn = Inr eqn1"
    using Suc.prems(2) nd by (cases "foldE (register_equipment objs) (node_equipment nd) eqn") auto
  from Suc.prems(2) nd r have
    c: "foldE (collect_equipment_nodes d nodes objs) (children_locations nd) eqn1 = Inr eqn'"
    by simp
  have "eqn_ok objs eqn1"
    by (rule foldE_inv[where I = "eqn_ok objs", OF register_ok[OF assms] Suc.prems(1) r])
  from foldE_inv[where I = "eqn_ok objs", OF Suc.IH this c] show ?case .
qed

lemma collect_all_ok:
  assumes "objs_ok (equipment_objs st)" "eqn_ok (equipment_objs st) (equipment_nodes st)"
    "collect_all d st = Inr st'"
  shows "eqn_ok (equipment_objs st') (equipment_nodes st') \<and>
    (\<exists>eqn. st' = st\<lparr>equipment_nodes := eqn\<rparr>)"
proof -
  from assms(3) obtain eqn where
    f: "foldE (collect_equipment_nodes d (location_nodes st) (equipment_objs st))
         (semantic_tree st) (equipment_nodes st) = Inr eqn"
    and st': "st' = st\<lparr>equipment_nodes := eqn\<rparr>"
    by (auto simp: collect_all_def split: sum.splits)
  from foldE_inv[where I = "eqn_ok (equipment_objs st)", OF collect_ok[OF assms(1)] assms(2) f]
  have "eqn_ok (equipment_objs st) eqn" .
  with st' show ?thesis by auto
qed

lemma first_in_find: "first_in d gs = List.find (\<lambda>g. g \<in> set (dict_keys d)) gs"
  unfolding first_in_def by (rule find_cong) (simp_all add: dict_has_def)

lemma find_Some_holds: "List.find P xs = Some x \<Longrightarrow> P x"
  by (auto simp: find_Some_iff)

lemma points_for_Nil [simp]: "points_for EK K ow [] = []"
  by (simp add: points_for_def)

lemma points_for_single:
  "points_for EK K ow [(nm, it)] =
     (if isPoint (e_semantic it) \<and> point_owner EK K (e_groupNames it) = ow then [nm] else [])"
  by (simp add: points_for_def)

lemma points_for_Cons:
  "points_for EK K ow (x # xs) = points_for EK K ow [x] @ points_for EK K ow xs"
  by (simp add: points_for_def)

lemma assign_point_step:
  fixes st nm it
  defines "K \<equiv> dict_keys (location_nodes st)"
    and "EK \<equiv> dict_keys (equipment_nodes st)"
  assumes tk: "[] \<notin> set K" and te: "[] \<notin> set EK"
    and eok: "eqn_ok (equipment_objs st) (equipment_nodes st)"
  shows "\<exists>st'. assign_point (nm, it) st = Inr st' \<and>
     dict_keys (location_nodes st') = K \<and>
     dict_keys (equipment_objs st') = dict_keys (equipment_objs st) \<and>
     equipment_nodes st' = equipment_nodes st \<and>
     semantic_tree st' = semantic_tree st \<and>
     (\<forall>p. map_of (location_nodes st') p =
        map_option (\<lambda>nd. nd\<lparr>node_points := node_points nd @ points_for EK K (LocOwner p) [(nm, it)]\<rparr>)
          (map_of (location_nodes st) p)) \<and>
     (\<forall>e. map_of (equipment_objs st') e =
        map_option (\<lambda>ob. ob\<lparr>eq_points := eq_points ob @ points_for EK K (EqOwner e) [(nm, it)]\<rparr>)
          (map_of (equipment_objs st) e))"
proof (cases "isPoint (e_semantic it)")
  case False
  then have "assign_point (nm, it) st = Inr st" by (simp add: assign_point_def)
  with False show ?thesis
    by (simp add: points_for_single K_def option.map_ident_strong)
next
  case pt: True
  let ?gs = "e_groupNames it"
  show ?thesis
  proof (cases "List.find (\<lambda>g. g \<in> set EK) ?gs")
    case (Some pe)
    then have peE: "pe \<in> set EK" by (rule find_Some_holds)
    with te have "pe \<noteq> []" by auto
    from peE obtain v where v: "map_of (equipment_nodes st) pe = Some v"
      using map_of_in_keys EK_def by blast
    with eok have "v = pe" and "pe \<in> set (dict_keys (equipment_objs st))"
      by (auto simp: eqn_ok_def)
    then obtain ob where ob: "map_of (equipment_objs st) pe = Some ob"
      using map_of_in_keys by blast
    have own: "point_owner EK K ?gs = EqOwner pe" by (simp add: point_owner_def Some)
    have "assign_point (nm, it) st =
        Inr (st\<lparr>equipment_objs := dict_set pe (ob\<lparr>eq_points := eq_points ob @ [nm]\<rparr>) (equipment_objs st)\<rparr>)"
      using pt Some v ob \<open>v = pe\<close> \<open>pe \<noteq> []\<close>
      by (simp add: assign_point_def first_in_find EK_def truthy_def point_to_equipment_def dict_get_Some)
    with pt own ob \<open>pe \<in> set (dict_keys (equipment_objs st))\<close> show ?thesis
      by (auto simp: points_for_single K_def dict_keys_set_existing map_of_dict_set
            option.map_ident_strong map_option_case split: option.splits)
  next
    case noeq: None
    show ?thesis
    proof (cases "List.find (\<lambda>g. g \<in> set K) ?gs")
      case None
      have own: "point_owner EK K ?gs = NoOwner" by (simp add: point_owner_def None noeq)
      have "assign_point (nm, it) st = Inr st"
        using pt None noeq
        by (simp add: assign_point_def first_in_find EK_def K_def point_to_location_def)
      with pt own show ?thesis
        by (simp add: points_for_single K_def option.map_ident_strong)
    next
      case (Some pl)
      then have plK: "pl \<in> set K" by (rule find_Some_holds)
      with tk have "pl \<noteq> []" by auto
      from plK obtain nd where nd: "map_of (location_nodes st) pl = Some nd"
        using map_of_in_keys K_def by blast
      have own: "point_owner EK K ?gs = LocOwner pl" by (simp add: point_owner_def Some noeq)
      have "assign_point (nm, it) st =
          Inr (st\<lparr>location_nodes := dict_set pl (nd\<lparr>node_points := node_points nd @ [nm]\<rparr>) (location_nodes st)\<rparr>)"
        using pt Some noeq nd \<open>pl \<noteq> []\<close>
        by (simp add: assign_point_def first_in_find EK_def K_def truthy_def point_to_location_def dict_get_Some)
      with pt own nd plK show ?thesis
        by (auto simp: points_for_single K_def dict_keys_set_existing map_of_dict_set
              option.map_ident_strong map_option_case split: option.splits)
    qed
  qed
qed

lemma eqn_ok_keys:
  "dict_keys objs' = dict_keys objs \<Longrightarrow> eqn_ok objs eqn \<Longrightarrow> eqn_ok objs' eqn"
  by (simp add: eqn_ok_def)

lemma assign_points_fold:
  fixes st xs
  defines "K \<equiv> dict_keys (location_nodes st)"
    and "EK \<equiv> dict_keys (equipment_nodes st)"
  assumes tk: "[] \<notin> set K" and te: "[] \<notin> set EK"
    and eok: "eqn_ok (equipment_objs st) (equipment_nodes st)"
  shows "\<exists>st'. foldE assign_point xs st = Inr st' \<and>
     dict_keys (location_nodes st') = K \<and>
     dict_keys (equipment_objs st') = dict_keys (equipment_objs st) \<and>
     equipment_nodes st' = equipment_nodes st \<and>
     semantic_tree st' = semantic_tree st \<and>
     (\<forall>p. map_of (location_nodes st') p =
        map_option (\<lambda>nd. nd\<lparr>node_points := node_points nd @ points_for EK K (LocOwner p) xs\<rparr>)
          (map_of (location_nodes st) p)) \<and>
     (\<forall>e. map_of (equipment_objs st') e =
        map_option (\<lambda>ob. ob\<lparr>eq_points := eq_points ob @ points_for EK K (EqOwner e) xs\<rparr>)
          (map_of (equipment_objs st) e))"
  using tk te eok unfolding K_def EK_def
proof (induction xs arbitrary: st)
  case Nil
  show ?case by (simp add: option.map_ident_strong)
next
  case (Cons x xs)
  obtain nm it where x: "x = (nm, it)" by (cases x)
  define K where "K = dict_keys (location_nodes st)"
  define EK where "EK = dict_keys (equipment_nodes st)"
  from assign_point_step[OF Cons.prems, of nm it] obtain st1 where
    s1: "assign_point (nm, it) st = Inr st1"
    and k1: "dict_keys (location_nodes st1) = K"
    and ok1: "dict_keys (equipment_objs st1) = dict_keys (equipment_objs st)"
    and e1: "equipment_nodes st1 = equipment_nodes st"
    and r1: "semantic_tree st1 = semantic_tree st"
    and m1: "\<And>p. map_of (location_nodes st1) p =
        map_option (\<lambda>nd. nd\<lparr>node_points := node_points nd @ points_for EK K (LocOwner p) [(nm, it)]\<rparr>)
          (map_of (location_nodes st) p)"
    and q1: "\<And>e. map_of (equipment_objs st1) e =
        map_option (\<lambda>ob. ob\<lparr>eq_points := eq_points ob @ points_for EK K (EqOwner e) [(nm, it)]\<rparr>)
          (map_of (equipment_objs st) e)"
    unfolding K_def EK_def by blast
  have p1: "[] \<notin> set (dict_keys (location_nodes st1))" "[] \<notin> set (dict_keys (equipment_nodes st1))"
    "eqn_ok (equipment_objs st1) (equipment_nodes st1)"
    using Cons.prems k1 e1 eqn_ok_keys[OF ok1] by (simp_all add: K_def)
  from Cons.IH[OF p1] obtain st' where
    s2: "foldE assign_point xs st1 = Inr st'"
    and k2: "dict_keys (location_nodes st') = K"
    and ok2: "dict_keys (equipment_objs st') = dict_keys (equipment_objs st1)"
    and e2: "equipment_nodes st' = equipment_nodes st1"
    and r2: "semantic_tree st' = semantic_tree st1"
    and m2: "\<And>p. map_of (location_nodes st') p =
        map_option (\<lambda>nd. nd\<lparr>node_points := node_points nd @ points_for EK K (LocOwner p) xs\<rparr>)
          (map_of (location_nodes st1) p)"
    and q2: "\<And>e. map_of (equipment_objs st') e =
        map_option (\<lambda>ob. ob\<lparr>eq_points := eq_points ob @ points_for EK K (EqOwner e) xs\<rparr>)
          (map_of (equipment_objs st1) e)"
    unfolding k1 e1 EK_def[symmetric] by blast
  have "foldE assign_point (x # xs) st = Inr st'" by (simp add: x s1 s2)
  moreover have "map_of (location_nodes st') p =
        map_option (\<lambda>nd. nd\<lparr>node_points := node_points nd @ points_for EK K (LocOwner p) (x # xs)\<rparr>)
          (map_of (location_nodes st) p)" for p
    unfolding points_for_Cons[of EK K _ x xs]
    by (simp add: m2 m1 x option.map_comp comp_def)
  moreover have "map_of (equipment_objs st') e =
        map_option (\<lambda>ob. ob\<lparr>eq_points := eq_points ob @ points_for EK K (EqOwner e) (x # xs)\<rparr>)
          (map_of (equipment_objs st) e)" for e
    unfolding points_for_Cons[of EK K _ x xs]
    by (simp add: q2 q1 x option.map_comp comp_def)
  ultimately show ?case using k2 ok2 ok1 e2 e1 r2 r1 unfolding K_def EK_def by auto
qed

lemma attached_subset: "set (attached K xs) \<subseteq> set (dict_keys xs)"
  by (auto simp: attached_def dict_keys_def)

lemma eqn_ok_keys_subset:
  "eqn_ok objs eqn \<Longrightarrow> set (dict_keys eqn) \<subseteq> set (dict_keys objs)"
  using map_of_in_keys by (fastforce simp: eqn_ok_def)

lemma build_enough_fuel:
  fixes items d
  defines "fl \<equiv> build_flat_index items"
  assumes d: "length (locations fl) \<le> d"
  shows "\<exists>r. build_items_index d items = Inr r \<and> closed_form fl r"
proof -
  define K where "K = dict_keys (locations fl)"
  have ok: "flat_ok fl" unfolding fl_def by (rule flat_ok_build)
  from assemble_closed[OF ok] obtain st where
    st: "assemble_locations fl = Inr st"
    and k: "dict_keys (location_nodes st) = K"
    and r: "semantic_tree st = placed_under K None (locations fl)"
    and m: "\<And>p. map_of (location_nodes st) p = (if p \<in> set K then Some (assembled_node fl p) else None)"
    and q: "\<And>e. map_of (equipment_objs st) e =
        (if e \<in> set (attached K (equipment fl)) then Some (new_equipment_node e) else None)"
    and ks: "set (dict_keys (equipment_objs st)) = set (attached K (equipment fl))"
    and dk: "distinct (dict_keys (equipment_objs st))"
    and en: "equipment_nodes st = []"
    unfolding K_def by blast
  have "length (dict_keys (location_nodes st)) \<le> d"
    unfolding k using d by (simp add: K_def dict_keys_def)
  from collect_all_terminates[OF assembled_forest[OF ok st] this] obtain eqn where
    c: "collect_all d st = Inr (st\<lparr>equipment_nodes := eqn\<rparr>)"
    by blast
  define st1 where "st1 = st\<lparr>equipment_nodes := eqn\<rparr>"
  have "objs_ok (equipment_objs st)"
    by (auto simp: objs_ok_def q new_equipment_node_def split: if_splits)
  moreover have "eqn_ok (equipment_objs st) (equipment_nodes st)"
    by (simp add: eqn_ok_def en)
  ultimately have eok: "eqn_ok (equipment_objs st1) (equipment_nodes st1)"
    using collect_all_ok[OF _ _ c] by (simp add: st1_def)
  have kz: "[] \<notin> set (dict_keys (items_by_name fl))"
    and lsub: "set K \<subseteq> set (dict_keys (items_by_name fl))"
    and esub: "set (dict_keys (equipment fl)) \<subseteq> set (dict_keys (items_by_name fl))"
    using ok by (simp_all add: flat_ok_def K_def)
  have tk: "[] \<notin> set (dict_keys (location_nodes st1))"
    using kz lsub by (auto simp: st1_def k)
  have "set (dict_keys (equipment_nodes st1)) \<subseteq> set (attached K (equipment fl))"
    using eqn_ok_keys_subset[OF eok] by (simp add: st1_def ks)
  with attached_subset[of K "equipment fl"] esub kz
  have te: "[] \<notin> set (dict_keys (equipment_nodes st1))" by auto
  from assign_points_fold[OF tk te eok, of "items_by_name fl"] obtain st2 where
    s2: "foldE assign_point (items_by_name fl) st1 = Inr st2"
    and k2: "dict_keys (location_nodes st2) = K"
    and ok2: "dict_keys (equipment_objs st2) = dict_keys (equipment_objs st)"
    and e2: "equipment_nodes st2 = eqn"
    and r2: "semantic_tree st2 = semantic_tree st"
    and m2: "\<And>p. map_of (location_nodes st2) p =
        map_option (\<lambda>nd. nd\<lparr>node_points := node_points nd @
             points_for (dict_keys eqn) K (LocOwner p) (items_by_name fl)\<rparr>)
          (map_of (location_nodes st) p)"
    and q2: "\<And>e. map_of (equipment_objs st2) e =
        map_option (\<lambda>ob. ob\<lparr>eq_points := eq_points ob @
             points_for (dict_keys eqn) K (EqOwner e) (items_by_name fl)\<rparr>)
          (map_of (equipment_objs st) e)"
    by (auto simp: st1_def k)
  define res where "res = \<lparr>res_items_by_name = items_by_name fl, res_tree = st2\<rparr>"
  have b: "build_items_index d items = Inr res"
    using st c s2 by (simp add: build_items_index_def Let_def fl_def[symmetric] st1_def res_def)
  have "closed_form fl res"
    unfolding closed_form_def K_def[symmetric]
  proof (intro conjI allI)
    show "res_items_by_name res = items_by_name fl" by (simp add: res_def)
    show "dict_keys (location_nodes (res_tree res)) = K" by (simp add: res_def k2)
    show "semantic_tree (res_tree res) = placed_under K None (locations fl)"
      by (simp add: res_def r2 r)
    show "map_of (location_nodes (res_tree res)) p =
        (if p \<in> set K then Some (final_node fl (dict_keys (equipment_nodes (res_tree res))) p) else None)" for p
      by (simp add: res_def m2 m e2 final_node_def assembled_node_def K_def)
    show "map_of (equipment_objs (res_tree res)) e =
        (if e \<in> set (attached K (equipment fl))
         then Some (final_equipment fl (dict_keys (equipment_nodes (res_tree res))) e) else None)" for e
      by (simp add: res_def q2 q e2 final_equipment_def new_equipment_node_def K_def)
    show "set (dict_keys (equipment_objs (res_tree res))) = set (attached K (equipment fl))"
      by (simp add: res_def ok2 ks)
    show "distinct (dict_keys (equipment_objs (res_tree res)))"
      by (simp add: res_def ok2 dk)
    show "eqn_ok (equipment_objs (res_tree res)) (equipment_nodes (res_tree res))"
      using eok eqn_ok_keys[OF ok2] by (simp add: res_def e2 st1_def)
  qed
  with b show ?thesis by blast
qed

lemma build_fuel_mono:
  assumes "build_items_index d items = x" "x \<noteq> Inl RecursionError"
  shows "build_items_index (d + k) items = x"
proof (cases "assemble_locations (build_flat_index items)")
  case (Inl e)
  with assms show ?thesis by (simp add: build_items_index_def Let_def)
next
  case (Inr st)
  with assms have "collect_all d st \<noteq> Inl RecursionError"
    by (auto simp: build_items_index_def Let_def)
  from collect_all_mono[OF refl this] have "collect_all (d + k) st = collect_all d st" .
  with assms Inr show ?thesis by (simp add: build_items_index_def Let_def)
qed

lemma build_fuel_independent:
  assumes "build_items_index d1 items = x" "x \<noteq> Inl RecursionError"
    and "build_items_index d2 items = y" "y \<noteq> Inl RecursionError"
  shows "x = y"
proof -
  from build_fuel_mono[OF assms(1,2), of d2] build_fuel_mono[OF assms(3,4), of d1]
  show ?thesis by (simp add: add.commute)
qed

lemma build_result:
  assumes "build_items_index d items = x" "x \<noteq> Inl RecursionError"
  shows "\<exists>r. x = Inr r \<and> closed_form (build_flat_index items) r"
proof -
  from build_enough_fuel[of items "length (locations (build_flat_index items))"]
  obtain r where r: "build_items_index (length (locations (build_flat_index items))) items = Inr r"
    "closed_form (build_flat_index items) r" by auto
  have "Inr r \<noteq> (Inl RecursionError :: error + index_result)" by simp
  from build_fuel_independent[OF assms r(1) this] r(2) show ?thesis by simp
qed

lemma build_returned:
  "build_items_index d items = Inr r \<Longrightarrow> closed_form (build_flat_index items) r"
  using build_result[of d items "Inr r"] by simp

lemma build_no_key_error: "build_items_index d items \<noteq> Inl KeyError"
  using build_result[of d items "Inl KeyError"] by auto

lemma list_ex_endswith:
  "list_ex (\<lambda>t. endswith t s \<or> t = s) ts \<longleftrightarrow> (\<exists>t \<in> set ts. t = s \<or> (\<exists>p. t = p @ s))"
  by (auto simp: list_ex_iff endswith_iff)




lemma entry_lookup: "distinct (dict_keys d) \<Longrightarrow> (k, v) \<in> set d \<Longrightarrow> map_of d k = Some v"
  by (simp add: dict_keys_def)

lemma first_candidate_Nil:
  "first_candidate K gs = None \<longleftrightarrow> filter (\<lambda>g. g \<in> set K) gs = []"
  by (simp add: first_candidate_def split: list.splits)

lemma first_candidate_Cons:
  "filter (\<lambda>g. g \<in> set K) gs = c # cs \<Longrightarrow> first_candidate K gs = Some c"
  by (simp add: first_candidate_def)

lemma points_for_mem:
  "distinct (map fst xs) \<Longrightarrow>
   q \<in> set (points_for EK K ow xs) \<longleftrightarrow>
     (\<exists>it. map_of xs q = Some it \<and> isPoint (e_semantic it) \<and>
        point_owner EK K (e_groupNames it) = ow)"
  by (force simp: points_for_def)

lemma points_for_distinct:
  "distinct (map fst xs) \<Longrightarrow> distinct (points_for EK K ow xs)"
  by (simp add: points_for_def distinct_map_filter)

lemma filter_at_most_one:
  assumes "distinct (map fst d)"
    and "\<And>k v. (k, v) \<in> set d \<Longrightarrow> P k v \<Longrightarrow> k = k0"
  shows "length (filter (\<lambda>(k, v). P k v) d) \<le> 1"
proof -
  let ?fs = "filter (\<lambda>(k, v). P k v) d"
  have "distinct (map fst ?fs)" using assms(1) by (rule distinct_map_filter)
  moreover have "set (map fst ?fs) \<subseteq> set [k0]" using assms(2) by auto
  ultimately have "length (map fst ?fs) \<le> length [k0]" by (rule distinct_subset_length)
  then show ?thesis by simp
qed

lemma filter_none:
  "(\<And>k v. (k, v) \<in> set d \<Longrightarrow> \<not> P k v) \<Longrightarrow> filter (\<lambda>(k, v). P k v) d = []"
  by (auto simp: filter_empty_conv)








lemma placed_under_distinct: "distinct (map fst xs) \<Longrightarrow> distinct (placed_under K p xs)"
  by (simp add: placed_under_def distinct_map_filter)



lemma run_projection:
  "build_items_index d items = Inr r \<Longrightarrow>
   map_sum id f (build_items_index d items) = Inr v \<Longrightarrow> f r = v"
  by simp

lemma map_entries_by_key:
  assumes "\<And>k v. (k, v) \<in> set d \<Longrightarrow> f v = g k"
  shows "map (\<lambda>(k, v). (k, f v)) d = map (\<lambda>k. (k, g k)) (dict_keys d)"
  using assms by (induction d) (auto simp: dict_keys_def)



















section \<open>The claims\<close>

text \<open>
  C1. In the result, the location nodes are the keys of \<open>locations\<close>. The parent
  candidates of a group list are its elements that are names of location nodes, in the
  order of the list. The root list holds the locations without candidate, in the iteration
  order of \<open>locations\<close>. The children of a node \<open>p\<close> are the locations whose first
  candidate is \<open>p\<close>, and its equipment list the equipment whose first candidate is
  \<open>p\<close>, each in the iteration order of its dictionary. So an entry with candidates
  \<open>c # cs\<close> is listed under \<open>c\<close>, under no other node and not among the roots, and
  no list names an entry twice.
\<close>

theorem first_match_placement:
  assumes "build_items_index d items = Inr r"
  shows "let fl = build_flat_index items; K = dict_keys (locations fl); t = res_tree r in
     dict_keys (location_nodes t) = K \<and> distinct K \<and>
     (\<forall>gs. parent_locations (location_nodes t) gs = filter (\<lambda>g. g \<in> set K) gs) \<and>
     semantic_tree t = placed_under K None (locations fl) \<and>
     (\<forall>p nd. (p, nd) \<in> set (location_nodes t) \<longrightarrow>
        item nd = p \<and>
        children_locations nd = placed_under K (Some p) (locations fl) \<and>
        node_equipment nd = placed_under K (Some p) (equipment fl)) \<and>
     (\<forall>n a. (n, a) \<in> set (locations fl) \<and> filter (\<lambda>g. g \<in> set K) (a_groupNames a) = [] \<longrightarrow>
        n \<in> set (semantic_tree t) \<and>
        (\<forall>p nd. (p, nd) \<in> set (location_nodes t) \<longrightarrow> n \<notin> set (children_locations nd))) \<and>
     (\<forall>n a c cs. (n, a) \<in> set (locations fl) \<and> filter (\<lambda>g. g \<in> set K) (a_groupNames a) = c # cs \<longrightarrow>
        n \<notin> set (semantic_tree t) \<and>
        (\<forall>p nd. (p, nd) \<in> set (location_nodes t) \<longrightarrow> (n \<in> set (children_locations nd) \<longleftrightarrow> p = c))) \<and>
     (\<forall>e a c cs. (e, a) \<in> set (equipment fl) \<and> filter (\<lambda>g. g \<in> set K) (a_groupNames a) = c # cs \<longrightarrow>
        (\<forall>p nd. (p, nd) \<in> set (location_nodes t) \<longrightarrow> (e \<in> set (node_equipment nd) \<longleftrightarrow> p = c))) \<and>
     distinct (semantic_tree t) \<and>
     (\<forall>p nd. (p, nd) \<in> set (location_nodes t) \<longrightarrow>
        distinct (children_locations nd) \<and> distinct (node_equipment nd))"
proof -
  define fl where "fl = build_flat_index items"
  define K where "K = dict_keys (locations fl)"
  define t where "t = res_tree r"
  have ok: "flat_ok fl" unfolding fl_def by (rule flat_ok_build)
  then have dK: "distinct K" and dl: "distinct (map fst (locations fl))"
    and de: "distinct (map fst (equipment fl))"
    by (simp_all add: flat_ok_def K_def dict_keys_def)
  from build_returned[OF assms] have cf: "closed_form fl r" by (simp add: fl_def)
  then have k: "dict_keys (location_nodes t) = K"
    and r: "semantic_tree t = placed_under K None (locations fl)"
    and m: "\<And>p. map_of (location_nodes t) p =
        (if p \<in> set K then Some (final_node fl (dict_keys (equipment_nodes t)) p) else None)"
    by (simp_all add: closed_form_def K_def t_def)
  have node: "item nd = p \<and>
        children_locations nd = placed_under K (Some p) (locations fl) \<and>
        node_equipment nd = placed_under K (Some p) (equipment fl)"
    if "(p, nd) \<in> set (location_nodes t)" for p nd
  proof -
    from that dK k have "map_of (location_nodes t) p = Some nd" by (simp add: entry_lookup)
    then have "nd = final_node fl (dict_keys (equipment_nodes t)) p"
      by (simp add: m split: if_splits)
    then show ?thesis by (simp add: final_node_def K_def)
  qed
  have pl: "parent_locations (location_nodes t) gs = filter (\<lambda>g. g \<in> set K) gs" for gs
    by (simp add: parent_locations_keys k)
  have mem_l: "n \<in> set (placed_under K p (locations fl)) \<longleftrightarrow> first_candidate K (a_groupNames a) = p"
    if "(n, a) \<in> set (locations fl)" for n a p
    using placed_under_mem[OF dl, of n K p] map_of_is_SomeI[OF dl that] by auto
  have mem_e: "e \<in> set (placed_under K p (equipment fl)) \<longleftrightarrow> first_candidate K (a_groupNames a) = p"
    if "(e, a) \<in> set (equipment fl)" for e a p
    using placed_under_mem[OF de, of e K p] map_of_is_SomeI[OF de that] by auto
  have roots: "n \<in> set (semantic_tree t) \<and>
        (\<forall>p nd. (p, nd) \<in> set (location_nodes t) \<longrightarrow> n \<notin> set (children_locations nd))"
    if "(n, a) \<in> set (locations fl) \<and> filter (\<lambda>g. g \<in> set K) (a_groupNames a) = []" for n a
  proof -
    from that have "first_candidate K (a_groupNames a) = None" by (simp add: first_candidate_Nil)
    with that show ?thesis using node by (auto simp: r mem_l)
  qed
  have kids: "n \<notin> set (semantic_tree t) \<and>
        (\<forall>p nd. (p, nd) \<in> set (location_nodes t) \<longrightarrow> (n \<in> set (children_locations nd) \<longleftrightarrow> p = c))"
    if "(n, a) \<in> set (locations fl) \<and> filter (\<lambda>g. g \<in> set K) (a_groupNames a) = c # cs" for n a c cs
  proof -
    from that have "first_candidate K (a_groupNames a) = Some c" by (simp add: first_candidate_Cons)
    with that show ?thesis using node by (auto simp: r mem_l)
  qed
  have eqs: "\<forall>p nd. (p, nd) \<in> set (location_nodes t) \<longrightarrow> (e \<in> set (node_equipment nd) \<longleftrightarrow> p = c)"
    if "(e, a) \<in> set (equipment fl) \<and> filter (\<lambda>g. g \<in> set K) (a_groupNames a) = c # cs" for e a c cs
  proof -
    from that have "first_candidate K (a_groupNames a) = Some c" by (simp add: first_candidate_Cons)
    with that show ?thesis using node by (auto simp: mem_e)
  qed
  have d0: "distinct (semantic_tree t)"
    unfolding r by (rule placed_under_distinct[OF dl])
  have d1: "distinct (children_locations nd) \<and> distinct (node_equipment nd)"
    if "(p, nd) \<in> set (location_nodes t)" for p nd
    using node[OF that] placed_under_distinct[OF dl, of K "Some p"]
      placed_under_distinct[OF de, of K "Some p"] by simp
  show ?thesis
    unfolding Let_def fl_def[symmetric] K_def[symmetric] t_def[symmetric]
    using k dK pl r node roots kids eqs d0 d1 by blast
qed

theorem first_match_placement_witness:
  "\<exists>r. build_items_index 3 tie_break_items = Inr r \<and>
     dict_keys (location_nodes (res_tree r)) = [''LocRoot'', ''GroupA'', ''Room''] \<and>
     semantic_tree (res_tree r) = [''LocRoot'', ''GroupA''] \<and>
     map (\<lambda>(p, nd). (p, children_locations nd, node_equipment nd)) (location_nodes (res_tree r)) =
       [(''LocRoot'', [], []), (''GroupA'', [''Room''], []), (''Room'', [], [''Lamp''])]"
proof -
  define fl where "fl = build_flat_index tie_break_items"
  define K where "K = dict_keys (locations fl)"
  have len: "length (locations (build_flat_index tie_break_items)) \<le> 3" by code_simp
  from build_enough_fuel[OF len] obtain r where
    h: "build_items_index 3 tie_break_items = Inr r" by blast
  note c = first_match_placement[OF h, unfolded Let_def, folded fl_def, folded K_def]
  have e1: "K = [''LocRoot'', ''GroupA'', ''Room'']" unfolding K_def fl_def by code_simp
  have e2: "placed_under K None (locations fl) = [''LocRoot'', ''GroupA'']"
    unfolding K_def fl_def by code_simp
  have e3: "map (\<lambda>p. (p, placed_under K (Some p) (locations fl), placed_under K (Some p) (equipment fl))) K =
      [(''LocRoot'', [], []), (''GroupA'', [''Room''], []), (''Room'', [], [''Lamp''])]"
    unfolding K_def fl_def by code_simp
  note k = c[THEN conjunct1]
  note rt = c[THEN conjunct2, THEN conjunct2, THEN conjunct2, THEN conjunct1]
  note nodes = c[THEN conjunct2, THEN conjunct2, THEN conjunct2, THEN conjunct2, THEN conjunct1,
      rule_format, THEN conjunct2]
  have "map (\<lambda>(p, nd). (p, children_locations nd, node_equipment nd)) (location_nodes (res_tree r)) =
      map (\<lambda>(p, nd). (p, placed_under K (Some p) (locations fl), placed_under K (Some p) (equipment fl)))
        (location_nodes (res_tree r))"
  proof (rule map_cong[OF refl])
    fix x assume x: "x \<in> set (location_nodes (res_tree r))"
    obtain p nd where pn: "x = (p, nd)" by (cases x)
    from nodes[of p nd] x pn show "(case x of (p, nd) \<Rightarrow> (p, children_locations nd, node_equipment nd)) =
       (case x of (p, nd) \<Rightarrow>
          (p, placed_under K (Some p) (locations fl), placed_under K (Some p) (equipment fl)))"
      by simp
  qed
  also have "\<dots> = map (\<lambda>p. (p, placed_under K (Some p) (locations fl), placed_under K (Some p) (equipment fl))) K"
    unfolding k[symmetric] dict_keys_def by (simp add: case_prod_beta comp_def)
  finally have n3: "map (\<lambda>(p, nd). (p, children_locations nd, node_equipment nd)) (location_nodes (res_tree r)) =
      [(''LocRoot'', [], []), (''GroupA'', [''Room''], []), (''Room'', [], [''Lamp''])]"
    by (simp only: e3)
  from k have k': "dict_keys (location_nodes (res_tree r)) = [''LocRoot'', ''GroupA'', ''Room'']"
    by (simp only: e1)
  from rt have rt': "semantic_tree (res_tree r) = [''LocRoot'', ''GroupA'']"
    by (simp only: e2)
  show ?thesis
    by (rule exI[of _ r]) (intro conjI h k' rt' n3)
qed

text \<open>
  C2. With \<open>EK\<close> the names in the equipment lookup and \<open>K\<close> the names of the
  location nodes of the result: the owner of a point is the first of its group names in
  \<open>EK\<close>, else the first in \<open>K\<close>, else none (\<open>point_owner\<close>). The points list of an
  equipment node holds exactly the points of the flat index that it owns, the points list
  of a location node likewise, both in index order; a point without owner, and an entry
  that is no point, is in no list. For every name, the number of nodes (locations and
  equipment together) whose points list contains it is at most one, and no list contains a
  name twice.
\<close>

theorem point_placement:
  assumes "build_items_index d items = Inr r"
  shows "let t = res_tree r; ibn = res_items_by_name r;
             EK = dict_keys (equipment_nodes t); K = dict_keys (location_nodes t) in
     (\<forall>gs. first_in (equipment_nodes t) gs = List.find (\<lambda>g. g \<in> set EK) gs) \<and>
     (\<forall>gs. first_in (location_nodes t) gs = List.find (\<lambda>g. g \<in> set K) gs) \<and>
     (\<forall>k v. map_of (equipment_nodes t) k = Some v \<longrightarrow> v = k \<and> k \<in> set (dict_keys (equipment_objs t))) \<and>
     (\<forall>e ob. (e, ob) \<in> set (equipment_objs t) \<longrightarrow>
        eq_item ob = e \<and> eq_points ob = points_for EK K (EqOwner e) ibn) \<and>
     (\<forall>p nd. (p, nd) \<in> set (location_nodes t) \<longrightarrow>
        node_points nd = points_for EK K (LocOwner p) ibn) \<and>
     (\<forall>q it. (q, it) \<in> set ibn \<and>
          (\<not> isPoint (e_semantic it) \<or> point_owner EK K (e_groupNames it) = NoOwner) \<longrightarrow>
        (\<forall>p nd. (p, nd) \<in> set (location_nodes t) \<longrightarrow> q \<notin> set (node_points nd)) \<and>
        (\<forall>e ob. (e, ob) \<in> set (equipment_objs t) \<longrightarrow> q \<notin> set (eq_points ob))) \<and>
     (\<forall>q. length (filter (\<lambda>(p, nd). q \<in> set (node_points nd)) (location_nodes t)) +
          length (filter (\<lambda>(e, ob). q \<in> set (eq_points ob)) (equipment_objs t)) \<le> 1) \<and>
     (\<forall>p nd. (p, nd) \<in> set (location_nodes t) \<longrightarrow> distinct (node_points nd)) \<and>
     (\<forall>e ob. (e, ob) \<in> set (equipment_objs t) \<longrightarrow> distinct (eq_points ob))"
proof -
  define fl where "fl = build_flat_index items"
  define t where "t = res_tree r"
  define ibn where "ibn = res_items_by_name r"
  define EK where "EK = dict_keys (equipment_nodes t)"
  define K where "K = dict_keys (location_nodes t)"
  have ok: "flat_ok fl" unfolding fl_def by (rule flat_ok_build)
  from build_returned[OF assms] have cf: "closed_form fl r" by (simp add: fl_def)
  then have ibn: "ibn = items_by_name fl" and k: "K = dict_keys (locations fl)"
    by (simp_all add: closed_form_def ibn_def K_def t_def)
  from ok have dK: "distinct K" and di: "distinct (map fst ibn)"
    by (simp_all add: flat_ok_def k ibn dict_keys_def)
  from cf have m: "\<And>p. map_of (location_nodes t) p =
        (if p \<in> set K then Some (final_node fl EK p) else None)"
    and q: "\<And>e. map_of (equipment_objs t) e =
        (if e \<in> set (attached K (equipment fl)) then Some (final_equipment fl EK e) else None)"
    and dk: "distinct (dict_keys (equipment_objs t))"
    and eok: "eqn_ok (equipment_objs t) (equipment_nodes t)"
    by (simp_all add: closed_form_def k t_def EK_def)
  have dn: "distinct (dict_keys (location_nodes t))" using dK by (simp add: K_def)
  have node: "node_points nd = points_for EK K (LocOwner p) ibn"
    if "(p, nd) \<in> set (location_nodes t)" for p nd
  proof -
    from that dn have "map_of (location_nodes t) p = Some nd" by (simp add: entry_lookup)
    then have "nd = final_node fl EK p" by (simp add: m split: if_splits)
    then show ?thesis by (simp add: final_node_def k ibn)
  qed
  have obj: "eq_item ob = e \<and> eq_points ob = points_for EK K (EqOwner e) ibn"
    if "(e, ob) \<in> set (equipment_objs t)" for e ob
  proof -
    from that dk have "map_of (equipment_objs t) e = Some ob" by (simp add: entry_lookup)
    then have "ob = final_equipment fl EK e" by (simp add: q split: if_splits)
    then show ?thesis by (simp add: final_equipment_def k ibn)
  qed
  have f1: "first_in (equipment_nodes t) gs = List.find (\<lambda>g. g \<in> set EK) gs" for gs
    by (simp add: first_in_find EK_def)
  have f2: "first_in (location_nodes t) gs = List.find (\<lambda>g. g \<in> set K) gs" for gs
    by (simp add: first_in_find K_def)
  have lk: "v = k' \<and> k' \<in> set (dict_keys (equipment_objs t))"
    if "map_of (equipment_nodes t) k' = Some v" for k' v
    using eok that by (simp add: eqn_ok_def)
  have own_l: "q \<in> set (node_points nd) \<longleftrightarrow>
      (\<exists>it. map_of ibn q = Some it \<and> isPoint (e_semantic it) \<and>
         point_owner EK K (e_groupNames it) = LocOwner p)"
    if "(p, nd) \<in> set (location_nodes t)" for p nd q
    by (simp add: node[OF that] points_for_mem[OF di])
  have own_e: "q \<in> set (eq_points ob) \<longleftrightarrow>
      (\<exists>it. map_of ibn q = Some it \<and> isPoint (e_semantic it) \<and>
         point_owner EK K (e_groupNames it) = EqOwner e)"
    if "(e, ob) \<in> set (equipment_objs t)" for e ob q
    using obj[OF that] by (simp add: points_for_mem[OF di])
  have nowhere: "(\<forall>p nd. (p, nd) \<in> set (location_nodes t) \<longrightarrow> q \<notin> set (node_points nd)) \<and>
        (\<forall>e ob. (e, ob) \<in> set (equipment_objs t) \<longrightarrow> q \<notin> set (eq_points ob))"
    if "(q, it) \<in> set ibn \<and>
          (\<not> isPoint (e_semantic it) \<or> point_owner EK K (e_groupNames it) = NoOwner)" for q it
  proof -
    from that di have "map_of ibn q = Some it" by simp
    with that show ?thesis by (auto simp: own_l own_e)
  qed
  have once: "length (filter (\<lambda>(p, nd). q \<in> set (node_points nd)) (location_nodes t)) +
          length (filter (\<lambda>(e, ob). q \<in> set (eq_points ob)) (equipment_objs t)) \<le> 1" for q
  proof -
    define oq where "oq = (case map_of ibn q of
        None \<Rightarrow> NoOwner
      | Some it \<Rightarrow> if isPoint (e_semantic it) then point_owner EK K (e_groupNames it) else NoOwner)"
    have l: "oq = LocOwner p" if "(p, nd) \<in> set (location_nodes t)" "q \<in> set (node_points nd)" for p nd
      using that own_l[OF that(1), of q] by (auto simp: oq_def)
    have e: "oq = EqOwner e" if "(e, ob) \<in> set (equipment_objs t)" "q \<in> set (eq_points ob)" for e ob
      using that own_e[OF that(1), of q] by (auto simp: oq_def)
    show ?thesis
    proof (cases oq)
      case (EqOwner e0)
      have "filter (\<lambda>(p, nd). q \<in> set (node_points nd)) (location_nodes t) = []"
        by (rule filter_none) (use l EqOwner in auto)
      moreover have "length (filter (\<lambda>(e, ob). q \<in> set (eq_points ob)) (equipment_objs t)) \<le> 1"
        by (rule filter_at_most_one[where ?k0.0 = e0])
           (use dk e EqOwner in \<open>auto simp: dict_keys_def\<close>)
      ultimately show ?thesis by simp
    next
      case (LocOwner p0)
      have "filter (\<lambda>(e, ob). q \<in> set (eq_points ob)) (equipment_objs t) = []"
        by (rule filter_none) (use e LocOwner in auto)
      moreover have "length (filter (\<lambda>(p, nd). q \<in> set (node_points nd)) (location_nodes t)) \<le> 1"
        by (rule filter_at_most_one[where ?k0.0 = p0])
           (use dn l LocOwner in \<open>auto simp: dict_keys_def\<close>)
      ultimately show ?thesis by simp
    next
      case NoOwner
      have "filter (\<lambda>(e, ob). q \<in> set (eq_points ob)) (equipment_objs t) = []"
        by (rule filter_none) (use e NoOwner in auto)
      moreover have "filter (\<lambda>(p, nd). q \<in> set (node_points nd)) (location_nodes t) = []"
        by (rule filter_none) (use l NoOwner in auto)
      ultimately show ?thesis by simp
    qed
  qed
  have d1: "distinct (node_points nd)" if "(p, nd) \<in> set (location_nodes t)" for p nd
    by (simp add: node[OF that] points_for_distinct[OF di])
  have d2: "distinct (eq_points ob)" if "(e, ob) \<in> set (equipment_objs t)" for e ob
    using obj[OF that] by (simp add: points_for_distinct[OF di])
  show ?thesis
    unfolding Let_def t_def[symmetric] ibn_def[symmetric] EK_def[symmetric] K_def[symmetric]
    using f1 f2 lk obj node nowhere once d1 d2 by blast
qed

theorem point_placement_witness:
  "\<exists>r. build_items_index 3 tie_break_items = Inr r \<and>
     dict_keys (equipment_nodes (res_tree r)) = [''Lamp''] \<and>
     map (\<lambda>(e, ob). (e, eq_points ob)) (equipment_objs (res_tree r)) = [(''Lamp'', [''LampSwitch''])] \<and>
     map (\<lambda>(p, nd). (p, node_points nd)) (location_nodes (res_tree r)) =
       [(''LocRoot'', []), (''GroupA'', []), (''Room'', [''RoomTemp''])]"
proof -
  define fl where "fl = build_flat_index tie_break_items"
  have len: "length (locations (build_flat_index tie_break_items)) \<le> 3" by code_simp
  from build_enough_fuel[OF len] obtain r where
    h: "build_items_index 3 tie_break_items = Inr r" by blast
  have ibn: "res_items_by_name r = items_by_name fl"
    using build_returned[OF h] by (simp add: closed_form_def fl_def)
  have ek: "dict_keys (equipment_nodes (res_tree r)) = [''Lamp'']"
    by (rule run_projection[OF h]) code_simp
  have kk: "dict_keys (location_nodes (res_tree r)) = [''LocRoot'', ''GroupA'', ''Room'']"
    by (rule run_projection[OF h]) code_simp
  have ok: "dict_keys (equipment_objs (res_tree r)) = [''Lamp'']"
    by (rule run_projection[OF h]) code_simp
  note c = point_placement[OF h, unfolded Let_def ibn ek kk]
  note objs = c[THEN conjunct2, THEN conjunct2, THEN conjunct2, THEN conjunct1, rule_format,
      THEN conjunct2]
  note nodes = c[THEN conjunct2, THEN conjunct2, THEN conjunct2, THEN conjunct2, THEN conjunct1,
      rule_format]
  have e1: "map (\<lambda>e. (e, points_for [''Lamp''] [''LocRoot'', ''GroupA'', ''Room''] (EqOwner e)
        (items_by_name fl))) [''Lamp''] = [(''Lamp'', [''LampSwitch''])]"
    unfolding fl_def by code_simp
  have e2: "map (\<lambda>p. (p, points_for [''Lamp''] [''LocRoot'', ''GroupA'', ''Room''] (LocOwner p)
        (items_by_name fl))) [''LocRoot'', ''GroupA'', ''Room''] =
      [(''LocRoot'', []), (''GroupA'', []), (''Room'', [''RoomTemp''])]"
    unfolding fl_def by code_simp
  have "map (\<lambda>(e, ob). (e, eq_points ob)) (equipment_objs (res_tree r)) =
      map (\<lambda>e. (e, points_for [''Lamp''] [''LocRoot'', ''GroupA'', ''Room''] (EqOwner e)
        (items_by_name fl))) (dict_keys (equipment_objs (res_tree r)))"
    by (rule map_entries_by_key) (rule objs)
  then have p1: "map (\<lambda>(e, ob). (e, eq_points ob)) (equipment_objs (res_tree r)) =
      [(''Lamp'', [''LampSwitch''])]"
    by (simp only: ok e1)
  have "map (\<lambda>(p, nd). (p, node_points nd)) (location_nodes (res_tree r)) =
      map (\<lambda>p. (p, points_for [''Lamp''] [''LocRoot'', ''GroupA'', ''Room''] (LocOwner p)
        (items_by_name fl))) (dict_keys (location_nodes (res_tree r)))"
    by (rule map_entries_by_key) (rule nodes)
  then have p2: "map (\<lambda>(p, nd). (p, node_points nd)) (location_nodes (res_tree r)) =
      [(''LocRoot'', []), (''GroupA'', []), (''Room'', [''RoomTemp''])]"
    by (simp only: kk e2)
  show ?thesis
    by (rule exI[of _ r]) (intro conjI h ek p1 p2)
qed

text \<open>
  C3. The classifier sets \<open>isLocation\<close> exactly when some tag is \<open>Location\<close> or ends
  with it, and likewise \<open>isEquipment\<close> and \<open>isPoint\<close>; \<open>propertyTags\<close> are the tags
  other than the three literal markers, so a tag such as \<open>IndoorLocation\<close> stays; an absent
  or empty tag list gives three false flags and no property tags. The entry stored for a
  named item carries this classification of its tags.
\<close>

theorem classifier_flags_and_property_tags:
  "(isLocation (classify ts) \<longleftrightarrow> (\<exists>t \<in> set ts. t = ''Location'' \<or> (\<exists>p. t = p @ ''Location''))) \<and>
   (isEquipment (classify ts) \<longleftrightarrow> (\<exists>t \<in> set ts. t = ''Equipment'' \<or> (\<exists>p. t = p @ ''Equipment''))) \<and>
   (isPoint (classify ts) \<longleftrightarrow> (\<exists>t \<in> set ts. t = ''Point'' \<or> (\<exists>p. t = p @ ''Point''))) \<and>
   propertyTags (classify ts) =
     filter (\<lambda>t. t \<noteq> ''Location'' \<and> t \<noteq> ''Equipment'' \<and> t \<noteq> ''Point'') ts \<and>
   (tags it = None \<or> tags it = Some [] \<longrightarrow>
      classify (item_tags it) =
        \<lparr>isLocation = False, isEquipment = False, isPoint = False, propertyTags = []\<rparr>) \<and>
   (name it = Some nm \<and> nm \<noteq> [] \<longrightarrow>
      map_option e_semantic (map_of (items_by_name (index_item it st)) nm) =
        Some (classify (item_tags it)))"
proof (intro conjI impI)
  show "isLocation (classify ts) \<longleftrightarrow> (\<exists>t \<in> set ts. t = ''Location'' \<or> (\<exists>p. t = p @ ''Location''))"
    by (simp add: classify_def is_location_def list_ex_endswith)
  show "isEquipment (classify ts) \<longleftrightarrow> (\<exists>t \<in> set ts. t = ''Equipment'' \<or> (\<exists>p. t = p @ ''Equipment''))"
    by (simp add: classify_def is_equipment_def list_ex_endswith)
  show "isPoint (classify ts) \<longleftrightarrow> (\<exists>t \<in> set ts. t = ''Point'' \<or> (\<exists>p. t = p @ ''Point''))"
    by (simp add: classify_def is_point_def list_ex_endswith)
  show "propertyTags (classify ts) =
     filter (\<lambda>t. t \<noteq> ''Location'' \<and> t \<noteq> ''Equipment'' \<and> t \<noteq> ''Point'') ts"
    by (simp add: classify_def property_tags_def)
  show "classify (item_tags it) =
        \<lparr>isLocation = False, isEquipment = False, isPoint = False, propertyTags = []\<rparr>"
    if "tags it = None \<or> tags it = Some []"
    using that
    by (auto simp: item_tags_def classify_def is_location_def is_equipment_def is_point_def
          property_tags_def)
  show "map_option e_semantic (map_of (items_by_name (index_item it st)) nm) =
        Some (classify (item_tags it))"
    if "name it = Some nm \<and> nm \<noteq> []"
    using that by (simp add: index_item_named map_of_dict_set make_entry_def)
qed

theorem classifier_witness:
  "isLocation (classify [''IndoorLocation'', ''Light'']) \<and>
   propertyTags (classify [''IndoorLocation'', ''Location'', ''Light'']) = [''IndoorLocation'', ''Light''] \<and>
   classify (item_tags untagged_item) =
     \<lparr>isLocation = False, isEquipment = False, isPoint = False, propertyTags = []\<rparr> \<and>
   map_option e_semantic (map_of (items_by_name (index_item untagged_item empty_index)) ''Hall'') =
     Some \<lparr>isLocation = False, isEquipment = False, isPoint = False, propertyTags = []\<rparr>"
proof -
  have ex: "\<exists>t \<in> set [''IndoorLocation'', ''Light'']. t = ''Location'' \<or> (\<exists>p. t = p @ ''Location'')"
  proof (rule bexI)
    show "''IndoorLocation'' = ''Location'' \<or> (\<exists>p. ''IndoorLocation'' = p @ ''Location'')"
      by (rule disjI2, rule exI[of _ "''Indoor''"]) simp
    show "''IndoorLocation'' \<in> set [''IndoorLocation'', ''Light'']" by simp
  qed
  have t: "tags untagged_item = None \<or> tags untagged_item = Some []"
    by (simp add: untagged_item_def)
  have n: "name untagged_item = Some ''Hall'' \<and> ''Hall'' \<noteq> []"
    by (simp add: untagged_item_def)
  note c1 = classifier_flags_and_property_tags[of "[''IndoorLocation'', ''Light'']" untagged_item "''Hall''" empty_index]
  note c2 = classifier_flags_and_property_tags[of "[''IndoorLocation'', ''Location'', ''Light'']" untagged_item "''Hall''" empty_index]
  from c1[THEN conjunct1] ex have l: "isLocation (classify [''IndoorLocation'', ''Light''])"
    by (rule iffD2)
  have "propertyTags (classify [''IndoorLocation'', ''Location'', ''Light'']) =
      filter (\<lambda>t. t \<noteq> ''Location'' \<and> t \<noteq> ''Equipment'' \<and> t \<noteq> ''Point'')
        [''IndoorLocation'', ''Location'', ''Light'']"
    by (rule c2[THEN conjunct2, THEN conjunct2, THEN conjunct2, THEN conjunct1])
  also have "\<dots> = [''IndoorLocation'', ''Light'']" by simp
  finally have p: "propertyTags (classify [''IndoorLocation'', ''Location'', ''Light'']) =
      [''IndoorLocation'', ''Light'']" .
  have u: "classify (item_tags untagged_item) =
     \<lparr>isLocation = False, isEquipment = False, isPoint = False, propertyTags = []\<rparr>"
    by (rule c1[THEN conjunct2, THEN conjunct2, THEN conjunct2, THEN conjunct2, THEN conjunct1,
          THEN mp, OF t])
  have "map_option e_semantic (map_of (items_by_name (index_item untagged_item empty_index)) ''Hall'') =
     Some (classify (item_tags untagged_item))"
    by (rule c1[THEN conjunct2, THEN conjunct2, THEN conjunct2, THEN conjunct2, THEN conjunct2,
          THEN mp, OF n])
  with u have s: "map_option e_semantic (map_of (items_by_name (index_item untagged_item empty_index)) ''Hall'') =
     Some \<lparr>isLocation = False, isEquipment = False, isPoint = False, propertyTags = []\<rparr>"
    by (simp only:)
  from l p u s show ?thesis by (intro conjI)
qed

text \<open>
  C4. An equipment entry whose group names contain no name of a location node is in the
  equipment list of no location node, has no equipment node and no entry in the equipment
  lookup, while its name is still a key of \<open>items_by_name\<close>; no run raises
  \<open>KeyError\<close>.
\<close>

theorem orphan_equipment_omitted:
  assumes "build_items_index d items = Inr r"
    and "(e, eq) \<in> set (equipment (build_flat_index items))"
    and "parent_locations (location_nodes (res_tree r)) (a_groupNames eq) = []"
  shows "(\<forall>p nd. (p, nd) \<in> set (location_nodes (res_tree r)) \<longrightarrow> e \<notin> set (node_equipment nd)) \<and>
     e \<notin> set (dict_keys (equipment_objs (res_tree r))) \<and>
     e \<notin> set (dict_keys (equipment_nodes (res_tree r))) \<and>
     e \<in> set (dict_keys (res_items_by_name r)) \<and>
     (\<forall>d'. build_items_index d' items \<noteq> Inl KeyError)"
proof -
  define fl where "fl = build_flat_index items"
  define K where "K = dict_keys (locations fl)"
  define t where "t = res_tree r"
  have ok: "flat_ok fl" unfolding fl_def by (rule flat_ok_build)
  then have dK: "distinct K" and de: "distinct (map fst (equipment fl))"
    and esub: "set (dict_keys (equipment fl)) \<subseteq> set (dict_keys (items_by_name fl))"
    by (simp_all add: flat_ok_def K_def dict_keys_def)
  from build_returned[OF assms(1)] have cf: "closed_form fl r" by (simp add: fl_def)
  then have k: "dict_keys (location_nodes t) = K"
    and m: "\<And>p. map_of (location_nodes t) p =
        (if p \<in> set K then Some (final_node fl (dict_keys (equipment_nodes t)) p) else None)"
    and ks: "set (dict_keys (equipment_objs t)) = set (attached K (equipment fl))"
    and eok: "eqn_ok (equipment_objs t) (equipment_nodes t)"
    and ibn: "res_items_by_name r = items_by_name fl"
    by (simp_all add: closed_form_def K_def t_def)
  from assms(3) have "first_candidate K (a_groupNames eq) = None"
    by (simp add: first_candidate_Nil parent_locations_keys k t_def[symmetric])
  with assms(2) have fc: "\<And>a. map_of (equipment fl) e = Some a \<Longrightarrow> first_candidate K (a_groupNames a) = None"
    using map_of_is_SomeI[OF de, of e eq] by (simp add: fl_def)
  have a: "e \<notin> set (node_equipment nd)" if "(p, nd) \<in> set (location_nodes t)" for p nd
  proof -
    from that dK k have "map_of (location_nodes t) p = Some nd" by (simp add: entry_lookup)
    then have "node_equipment nd = placed_under K (Some p) (equipment fl)"
      by (auto simp: m final_node_def K_def split: if_splits)
    with fc show ?thesis using placed_under_mem[OF de, of e K "Some p"] by auto
  qed
  have b: "e \<notin> set (dict_keys (equipment_objs t))"
    unfolding ks using fc attached_mem[OF de, of e K] by auto
  with eqn_ok_keys_subset[OF eok] have c: "e \<notin> set (dict_keys (equipment_nodes t))" by auto
  from assms(2) have "e \<in> set (dict_keys (equipment fl))"
    by (auto simp: dict_keys_def fl_def intro: rev_image_eqI)
  with esub have dd: "e \<in> set (dict_keys (res_items_by_name r))" by (auto simp: ibn)
  have ee: "build_items_index d' items \<noteq> Inl KeyError" for d'
    by (rule build_no_key_error)
  from a b c dd ee show ?thesis unfolding t_def by blast
qed

theorem orphan_equipment_witness:
  "\<exists>r. build_items_index 3 tie_break_items = Inr r \<and>
     (''Box'', box_entry) \<in> set (equipment (build_flat_index tie_break_items)) \<and>
     parent_locations (location_nodes (res_tree r)) (a_groupNames box_entry) = [] \<and>
     \<not> list_ex (\<lambda>(p, nd). ''Box'' \<in> set (node_equipment nd)) (location_nodes (res_tree r)) \<and>
     ''Box'' \<notin> set (dict_keys (equipment_objs (res_tree r))) \<and>
     ''Box'' \<notin> set (dict_keys (equipment_nodes (res_tree r))) \<and>
     ''Box'' \<in> set (dict_keys (res_items_by_name r))"
proof -
  have len: "length (locations (build_flat_index tie_break_items)) \<le> 3" by code_simp
  from build_enough_fuel[OF len] obtain r where
    h: "build_items_index 3 tie_break_items = Inr r" by blast
  have m: "(''Box'', box_entry) \<in> set (equipment (build_flat_index tie_break_items))"
    by code_simp
  have "parent_locations (location_nodes (res_tree r)) [''Misc''] = []"
    by (rule run_projection[OF h]) code_simp
  then have pl: "parent_locations (location_nodes (res_tree r)) (a_groupNames box_entry) = []"
    by (simp add: box_entry_def)
  note c = orphan_equipment_omitted[OF h m pl]
  from c[THEN conjunct1] have
    "\<not> list_ex (\<lambda>(p, nd). ''Box'' \<in> set (node_equipment nd)) (location_nodes (res_tree r))"
    unfolding list_ex_iff by blast
  with h m pl c show ?thesis by blast
qed

text \<open>
  C5. The keys of \<open>items_by_name\<close> are distinct and are exactly the non-empty names of
  the input; the entry of a name is built from the last input record with that name; the
  result of \<open>build_items_index\<close> returns this index.
\<close>

theorem items_by_name_last_wins:
  "distinct (dict_keys (items_by_name (build_flat_index items))) \<and>
   set (dict_keys (items_by_name (build_flat_index items))) =
     {n. n \<noteq> [] \<and> (\<exists>it \<in> set items. name it = Some n)} \<and>
   (\<forall>n. map_of (items_by_name (build_flat_index items)) n =
      (if n = [] then None
       else map_option (make_entry n) (List.find (\<lambda>it. name it = Some n) (rev items)))) \<and>
   (\<forall>d r. build_items_index d items = Inr r \<longrightarrow>
      res_items_by_name r = items_by_name (build_flat_index items))"
proof (intro conjI allI impI)
  show "distinct (dict_keys (items_by_name (build_flat_index items)))"
    using flat_ok_build[of items] by (simp add: flat_ok_def)
  show "set (dict_keys (items_by_name (build_flat_index items))) =
     {n. n \<noteq> [] \<and> (\<exists>it \<in> set items. name it = Some n)}"
    using items_by_name_keys_fold[of items empty_index]
    by (simp add: build_flat_index_def empty_index_def dict_keys_def)
  show "map_of (items_by_name (build_flat_index items)) n =
      (if n = [] then None
       else map_option (make_entry n) (List.find (\<lambda>it. name it = Some n) (rev items)))" for n
    using items_by_name_lookup_fold[of items empty_index n]
    by (simp add: build_flat_index_def empty_index_def split: option.splits)
  show "res_items_by_name r = items_by_name (build_flat_index items)"
    if "build_items_index d items = Inr r" for d r
    using build_returned[OF that] by (simp add: closed_form_def)
qed

theorem items_by_name_last_wins_witness:
  "distinct (dict_keys (items_by_name (build_flat_index duplicate_items))) \<and>
   map_option e_tags (map_of (items_by_name (build_flat_index duplicate_items)) ''A'') =
     Some [''Light''] \<and>
   (\<exists>r. build_items_index 3 duplicate_items = Inr r \<and>
      res_items_by_name r = items_by_name (build_flat_index duplicate_items))"
proof -
  note c = items_by_name_last_wins[of duplicate_items]
  have len: "length (locations (build_flat_index duplicate_items)) \<le> 3" by code_simp
  from build_enough_fuel[OF len] obtain r where
    h: "build_items_index 3 duplicate_items = Inr r" by blast
  have ev: "map_option e_tags
      (if ''A'' = [] then None
       else map_option (make_entry ''A'') (List.find (\<lambda>it. name it = Some ''A'') (rev duplicate_items))) =
      Some [''Light'']"
    by code_simp
  have l: "map_option e_tags (map_of (items_by_name (build_flat_index duplicate_items)) ''A'') =
     Some [''Light'']"
    by (simp only: c[THEN conjunct2, THEN conjunct2, THEN conjunct1, rule_format] ev)
  from c[THEN conjunct2, THEN conjunct2, THEN conjunct2, rule_format, OF h] h
  have "\<exists>r. build_items_index 3 duplicate_items = Inr r \<and>
      res_items_by_name r = items_by_name (build_flat_index duplicate_items)" by blast
  with c[THEN conjunct1] l show ?thesis by (intro conjI)
qed

text \<open>
  C6. A record whose name is absent or empty leaves the loop state unchanged, so the
  flat index, the auxiliary dictionaries and the whole result are those of the input
  without such records, and every key of the three dictionaries is the name of a named
  record.
\<close>

theorem nameless_records_are_skipped:
  "build_flat_index (filter has_name items) = build_flat_index items \<and>
   build_items_index d (filter has_name items) = build_items_index d items \<and>
   (has_name it \<longleftrightarrow> (\<exists>nm. name it = Some nm \<and> nm \<noteq> [])) \<and>
   (\<not> has_name it \<longrightarrow> index_item it st = st) \<and>
   set (dict_keys (items_by_name (build_flat_index items))) \<union>
   set (dict_keys (locations (build_flat_index items))) \<union>
   set (dict_keys (equipment (build_flat_index items)))
     \<subseteq> {n. \<exists>it \<in> set items. has_name it \<and> name it = Some n}"
proof (intro conjI impI)
  show f: "build_flat_index (filter has_name items) = build_flat_index items"
    by (simp add: build_flat_index_def fold_index_filter)
  show "build_items_index d (filter has_name items) = build_items_index d items"
    by (simp add: build_items_index_def f)
  show "has_name it \<longleftrightarrow> (\<exists>nm. name it = Some nm \<and> nm \<noteq> [])" by (rule has_name_iff)
  show "index_item it st = st" if "\<not> has_name it" using that by (rule index_item_skip)
  have k: "set (dict_keys (items_by_name (build_flat_index items))) =
     {n. n \<noteq> [] \<and> (\<exists>it \<in> set items. name it = Some n)}"
    using items_by_name_keys_fold[of items empty_index]
    by (simp add: build_flat_index_def empty_index_def dict_keys_def)
  have "{n. n \<noteq> [] \<and> (\<exists>it \<in> set items. name it = Some n)} \<subseteq>
      {n. \<exists>it \<in> set items. has_name it \<and> name it = Some n}"
    by (auto simp: has_name_iff)
  with k flat_ok_build[of items]
  show "set (dict_keys (items_by_name (build_flat_index items))) \<union>
   set (dict_keys (locations (build_flat_index items))) \<union>
   set (dict_keys (equipment (build_flat_index items)))
     \<subseteq> {n. \<exists>it \<in> set items. has_name it \<and> name it = Some n}"
    unfolding flat_ok_def by blast
qed

theorem nameless_records_witness:
  "build_flat_index ghost_items = build_flat_index [mk_item ''Kitchen'' [''Location''] []] \<and>
   build_items_index 1 ghost_items = build_items_index 1 [mk_item ''Kitchen'' [''Location''] []] \<and>
   index_item (nameless_item (Some []) [''Equipment'', ''Point'']) empty_index = empty_index \<and>
   dict_keys (items_by_name (build_flat_index ghost_items)) = [''Kitchen''] \<and>
   dict_keys (equipment (build_flat_index ghost_items)) = []"
proof -
  note c = nameless_records_are_skipped[of ghost_items 1 "nameless_item (Some []) [''Equipment'', ''Point'']" empty_index]
  have f: "filter has_name ghost_items = [mk_item ''Kitchen'' [''Location''] []]"
    by (simp add: ghost_items_def has_name_def nameless_item_def mk_item_def truthy_def)
  have n: "\<not> has_name (nameless_item (Some []) [''Equipment'', ''Point''])"
    by (simp add: has_name_def nameless_item_def truthy_def)
  have a: "build_flat_index ghost_items = build_flat_index [mk_item ''Kitchen'' [''Location''] []]"
    using c[THEN conjunct1] by (simp only: f)
  have b: "build_items_index 1 ghost_items = build_items_index 1 [mk_item ''Kitchen'' [''Location''] []]"
    using c[THEN conjunct2, THEN conjunct1] by (simp only: f)
  have i: "index_item (nameless_item (Some []) [''Equipment'', ''Point'']) empty_index = empty_index"
    by (rule c[THEN conjunct2, THEN conjunct2, THEN conjunct2, THEN conjunct1, THEN mp, OF n])
  have k: "dict_keys (items_by_name (build_flat_index ghost_items)) = [''Kitchen'']" by code_simp
  have e: "dict_keys (equipment (build_flat_index ghost_items)) = []" by code_simp
  from a b i k e show ?thesis by (intro conjI)
qed






text \<open>
  C10. For the input with two records named \<open>A\<close>, the first tagged \<open>Location\<close>
  and the last untagged, the forest has the location node \<open>A\<close> as a root while the
  entry of \<open>A\<close> in \<open>items_by_name\<close> has \<open>isLocation\<close> false; the auxiliary entry
  of the first record is still there. An iteration of the indexing loop never removes a key
  from \<open>locations\<close> or \<open>equipment\<close>.
\<close>

theorem stale_location_survives:
  "(\<exists>r. build_items_index 1 shadow_items = Inr r \<and>
      semantic_tree (res_tree r) = [''A''] \<and>
      dict_keys (location_nodes (res_tree r)) = [''A''] \<and>
      map_option (isLocation \<circ> e_semantic) (map_of (res_items_by_name r) ''A'') = Some False) \<and>
   map_option a_tags (map_of (locations (build_flat_index shadow_items)) ''A'') = Some [''Location''] \<and>
   set (dict_keys (locations st)) \<subseteq> set (dict_keys (locations (index_item it st))) \<and>
   set (dict_keys (equipment st)) \<subseteq> set (dict_keys (equipment (index_item it st)))"
proof -
  have len: "length (locations (build_flat_index shadow_items)) \<le> 1" by code_simp
  from build_enough_fuel[OF len] obtain r where
    h: "build_items_index 1 shadow_items = Inr r" by blast
  have a: "semantic_tree (res_tree r) = [''A'']"
    by (rule run_projection[OF h]) code_simp
  have b: "dict_keys (location_nodes (res_tree r)) = [''A'']"
    by (rule run_projection[OF h]) code_simp
  have c: "map_option (isLocation \<circ> e_semantic) (map_of (res_items_by_name r) ''A'') = Some False"
    by (rule run_projection[OF h]) code_simp
  have d: "map_option a_tags (map_of (locations (build_flat_index shadow_items)) ''A'') = Some [''Location'']"
    by code_simp
  have e: "set (dict_keys (locations st)) \<subseteq> set (dict_keys (locations (index_item it st)))"
    "set (dict_keys (equipment st)) \<subseteq> set (dict_keys (equipment (index_item it st)))"
    by (cases "has_name it"; auto simp: index_item_skip index_item_named has_name_iff dict_keys_dict_set)+
  from h a b c have "\<exists>r. build_items_index 1 shadow_items = Inr r \<and>
      semantic_tree (res_tree r) = [''A''] \<and>
      dict_keys (location_nodes (res_tree r)) = [''A''] \<and>
      map_option (isLocation \<circ> e_semantic) (map_of (res_items_by_name r) ''A'') = Some False"
    by blast
  with d e show ?thesis by (intro conjI)
qed

end
